theory Spec2Isabelle
  imports Main "HOL-Library.AList" "HOL-Library.Multiset"
begin

section \<open>Items, replicas and the catalog client\<close>

text \<open>
  The playlist reconciliation engine of \<^verbatim>\<open>src/services/plex_service.py\<close>:
  \<^verbatim>\<open>update_recent_raves\<close> (incremental, capped), \<^verbatim>\<open>sync_jam_jar\<close> (full replace) and
  \<^verbatim>\<open>sync_staff_picks\<close> (broadcast). The catalog (the Plex server reached through
  \<^verbatim>\<open>plexapi\<close>) is remote state; it is modelled as an explicit value that every operation
  reads and returns updated.

  A \<^verbatim>\<open>datetime\<close> is the number of microseconds since \<^verbatim>\<open>datetime.min\<close>, so
  \<^verbatim>\<open>datetime.min\<close> is 0 and no datetime is earlier. A datetime object is always truthy
  in Python; only \<^verbatim>\<open>None\<close> is falsy.
\<close>

type_synonym key = nat
type_synonym username = string
type_synonym datetime = nat

definition datetime_min :: datetime where
  "datetime_min = 0"

text \<open>
  An item of the catalog. \<^verbatim>\<open>grandparentTitle\<close> and \<^verbatim>\<open>originalTitle\<close> are only used as
  \<^verbatim>\<open>a or b or 'Unknown'\<close>, where \<^verbatim>\<open>None\<close> and the empty string behave alike, so both are
  the empty string here. The timestamp attributes are always present on a media object and
  may hold \<^verbatim>\<open>None\<close>.
\<close>

record track =
  ratingKey :: key
  title :: string
  grandparentTitle :: string
  originalTitle :: string
  lastRatedAt :: "datetime option"
  addedAt :: "datetime option"

datatype exn =
  ScopeUnavailable | SectionsFailure | SearchFailure
  | PlaylistReadFailure | PlaylistWriteFailure | AccountUnavailable | NotFound

datatype op = OpSections | OpPlaylists | OpItems | OpAddItems | OpRemoveItems | OpCreatePlaylist

record lib_section =
  sec_type :: string
  search_raises :: bool
  search_results :: "track list"

record playlist =
  pl_title :: string
  pl_items :: "track list"

text \<open>
  A replica scope: its library sections, its playlists in the order \<^verbatim>\<open>playlists()\<close> lists
  them, and the operations that raise in this scope for the whole invocation.
\<close>

record scope =
  sc_sections :: "lib_section list"
  sc_playlists :: "playlist list"
  sc_faults :: "op set"

record account_user =
  au_title :: username
  au_home :: bool

text \<open>
  The catalog: the scope of every reachable replica by user name, the admin scope the
  service itself is logged into, and the account's user list (\<open>None\<close> when
  \<^verbatim>\<open>myPlexAccount().users()\<close> raises).
\<close>

record catalog =
  cat_users :: "username \<rightharpoonup> scope"
  cat_admin :: scope
  cat_account :: "account_user list option"

text \<open>
  Modelled from the spec: the catalog client (the third-party \<^verbatim>\<open>plexapi\<close> package) is
  not part of the repository. Section 6 of the specification gives its operations:
  \<^verbatim>\<open>switchUser\<close> returns the scope bound to a replica or fails; \<^verbatim>\<open>playlists()\<close> lists
  the playlists of a scope, and the loop of the source takes the first one with the title;
  \<^verbatim>\<open>addItems\<close> appends; \<^verbatim>\<open>createPlaylist\<close> creates one more playlist, seeded with the
  items, also when a playlist of the title is already there; the rating search returns the
  items above the threshold, each with its rating timestamp if present.

  What the playlist object of the package does beyond that is part of what the code does.
  A playlist object is the position of the playlist in its scope, together with what the
  object remembers:
  \<^item> \<^verbatim>\<open>items()\<close> asks the server once and keeps the list; every later call on the same
    object returns the list kept, which \<^verbatim>\<open>addItems\<close> does not refresh. A member of the
    list carries its playlist item id; the id is the position of the member in the list.
  \<^item> The truth value of a playlist object is its length (\<^verbatim>\<open>__len__\<close> is
    \<^verbatim>\<open>len(self.items())\<close>): \<^verbatim>\<open>if playlist:\<close> lists the playlist, and takes the
    \<^verbatim>\<open>else\<close> branch for a playlist that is there but empty, as it does for \<^verbatim>\<open>None\<close>.
  \<^item> \<^verbatim>\<open>removeItems\<close> takes the items one after the other: it looks the item up by
    \<^verbatim>\<open>ratingKey\<close> in the list kept, takes the playlist item id of the first match and
    deletes that member on the server, which raises when the member is already gone. The
    members deleted before an exception stay deleted.
  Every call site lists the playlist and deletes nothing before its \<^verbatim>\<open>removeItems\<close>, so
  that the ids of the list kept are positions of the playlist on the server.
\<close>

definition switchUser :: "catalog \<Rightarrow> username \<Rightarrow> exn + scope" where
  "switchUser cat username =
     (case cat_users cat username of None \<Rightarrow> Inl ScopeUnavailable | Some sc \<Rightarrow> Inr sc)"

definition store_scope :: "username \<Rightarrow> scope \<Rightarrow> catalog \<Rightarrow> catalog" where
  "store_scope username sc cat = cat\<lparr>cat_users := (cat_users cat)(username \<mapsto> sc)\<rparr>"

definition sections :: "scope \<Rightarrow> exn + lib_section list" where
  "sections sc = (if OpSections \<in> sc_faults sc then Inl SectionsFailure else Inr (sc_sections sc))"

definition search :: "lib_section \<Rightarrow> exn + track list" where
  "search lib = (if search_raises lib then Inl SearchFailure else Inr (search_results lib))"

definition playlists :: "scope \<Rightarrow> exn + playlist list" where
  "playlists sc =
     (if OpPlaylists \<in> sc_faults sc then Inl PlaylistReadFailure else Inr (sc_playlists sc))"

fun find_playlist :: "string \<Rightarrow> playlist list \<Rightarrow> nat option" where
  "find_playlist playlist_name [] = None"
| "find_playlist playlist_name (pl # pls) =
     (if pl_title pl = playlist_name then Some 0
      else map_option Suc (find_playlist playlist_name pls))"

definition upd_items :: "nat \<Rightarrow> (track list \<Rightarrow> track list) \<Rightarrow> scope \<Rightarrow> scope" where
  "upd_items h f sc =
     sc\<lparr>sc_playlists :=
          (sc_playlists sc)[h := (sc_playlists sc ! h)\<lparr>pl_items := f (pl_items (sc_playlists sc ! h))\<rparr>]\<rparr>"

definition items :: "scope \<Rightarrow> nat \<Rightarrow> exn + (nat \<times> track) list" where
  "items sc h =
     (if OpItems \<in> sc_faults sc then Inl PlaylistReadFailure
      else Inr (enumerate 0 (pl_items (sc_playlists sc ! h))))"

definition addItems :: "nat \<Rightarrow> track list \<Rightarrow> scope \<Rightarrow> exn + scope" where
  "addItems h ts sc =
     (if OpAddItems \<in> sc_faults sc then Inl PlaylistWriteFailure
      else Inr (upd_items h (\<lambda>xs. xs @ ts) sc))"

text \<open>\<^verbatim>\<open>_getPlaylistItemID\<close>: the id of the first member of the list kept with the item's key.\<close>

definition lookup_item :: "(nat \<times> track) list \<Rightarrow> track \<Rightarrow> nat option" where
  "lookup_item cached item =
     map_option fst (find (\<lambda>e. ratingKey (snd e) = ratingKey item) cached)"

text \<open>The loop of \<^verbatim>\<open>removeItems\<close>: the ids deleted so far, and the exception if one was raised.\<close>

fun delete_items :: "(nat \<times> track) list \<Rightarrow> track list \<Rightarrow> nat set \<Rightarrow> exn option \<times> nat set" where
  "delete_items cached [] gone = (None, gone)"
| "delete_items cached (item # rest) gone =
     (case lookup_item cached item of
        None \<Rightarrow> (Some NotFound, gone)
      | Some i \<Rightarrow>
          if i \<in> gone then (Some NotFound, gone)
          else delete_items cached rest (insert i gone))"

definition removeItems :: "nat \<Rightarrow> (nat \<times> track) list \<Rightarrow> track list \<Rightarrow> scope \<Rightarrow> exn option \<times> scope" where
  "removeItems h cached its sc =
     (if its \<noteq> [] \<and> OpRemoveItems \<in> sc_faults sc then (Some PlaylistWriteFailure, sc)
      else
        (case delete_items cached its {} of
           (r, gone) \<Rightarrow>
             (r, upd_items h (\<lambda>xs. map snd (filter (\<lambda>e. fst e \<notin> gone) (enumerate 0 xs))) sc)))"

definition createPlaylist :: "string \<Rightarrow> track list \<Rightarrow> scope \<Rightarrow> exn + scope" where
  "createPlaylist playlist_name ts sc =
     (if OpCreatePlaylist \<in> sc_faults sc then Inl PlaylistWriteFailure
      else Inr (sc\<lparr>sc_playlists := sc_playlists sc @ [\<lparr>pl_title = playlist_name, pl_items = ts\<rparr>]\<rparr>))"

text \<open>The items of the playlist a replica shows under a name, if it has one.\<close>

definition playlist_of :: "string \<Rightarrow> scope \<Rightarrow> track list option" where
  "playlist_of playlist_name sc =
     map_option (\<lambda>h. pl_items (sc_playlists sc ! h)) (find_playlist playlist_name (sc_playlists sc))"

text \<open>
  \<^verbatim>\<open>sorted(xs, key=k, reverse=True)\<close> and \<^verbatim>\<open>xs.sort(key=k, reverse=True)\<close>: descending, and
  stable, so elements with equal keys keep their original order.
\<close>

definition sorted_reverse :: "('a \<Rightarrow> datetime) \<Rightarrow> 'a list \<Rightarrow> 'a list" where
  "sorted_reverse k xs = rev (sort_key k (rev xs))"

text \<open>\<^verbatim>\<open>track.grandparentTitle or track.originalTitle or 'Unknown'\<close>\<close>

definition artist_of :: "track \<Rightarrow> string" where
  "artist_of t =
     (if grandparentTitle t \<noteq> [] then grandparentTitle t
      else if originalTitle t \<noteq> [] then originalTitle t else ''Unknown'')"

section \<open>Incremental-capped policy: \<^verbatim>\<open>update_recent_raves\<close>\<close>

text \<open>
  A row of the returned track list. \<^verbatim>\<open>rated_at\<close> is the timestamp the source formats with
  \<^verbatim>\<open>strftime('%m/%d')\<close>; \<open>None\<close> stands for the empty string.
\<close>

record rated_row =
  rr_title :: string
  rr_artist :: string
  rr_user :: username
  rr_rated_at :: "datetime option"

record raves_result =
  added :: nat
  total :: nat
  tracks :: "rated_row list"

text \<open>Lines 531-534: the tracks of one search result that carry a rating timestamp.\<close>

fun scan_results ::
  "username \<Rightarrow> track list \<Rightarrow> track list \<times> (key \<rightharpoonup> username) \<Rightarrow> track list \<times> (key \<rightharpoonup> username)" where
  "scan_results username [] st = st"
| "scan_results username (t # ts) (user_tracks, track_users) =
     (if lastRatedAt t \<noteq> None
      then scan_results username ts (user_tracks @ [t], track_users(ratingKey t \<mapsto> username))
      else scan_results username ts (user_tracks, track_users))"

text \<open>
  Lines 528-534: the loop over the music libraries. A search that raises leaves the loop;
  what it has written to \<^verbatim>\<open>track_users\<close> so far stays.
\<close>

fun search_libs ::
  "username \<Rightarrow> lib_section list \<Rightarrow> track list \<times> (key \<rightharpoonup> username)
     \<Rightarrow> (exn + track list) \<times> (key \<rightharpoonup> username)" where
  "search_libs username [] (user_tracks, track_users) = (Inr user_tracks, track_users)"
| "search_libs username (lib # libs) (user_tracks, track_users) =
     (case search lib of
        Inl e \<Rightarrow> (Inl e, track_users)
      | Inr results \<Rightarrow>
          search_libs username libs (scan_results username results (user_tracks, track_users)))"

text \<open>Lines 522-540: one contributor after the other; a failure skips the contributor.\<close>

fun collect_ratings ::
  "catalog \<Rightarrow> username list \<Rightarrow> track list \<times> (key \<rightharpoonup> username) \<Rightarrow> track list \<times> (key \<rightharpoonup> username)" where
  "collect_ratings cat [] st = st"
| "collect_ratings cat (username # rest) (all_rated_tracks, track_users) =
     (case switchUser cat username of
        Inl e \<Rightarrow> collect_ratings cat rest (all_rated_tracks, track_users)
      | Inr user_plex \<Rightarrow>
          (case sections user_plex of
             Inl e \<Rightarrow> collect_ratings cat rest (all_rated_tracks, track_users)
           | Inr libs \<Rightarrow>
               (case search_libs username (filter (\<lambda>lib. sec_type lib = ''artist'') libs)
                       ([], track_users) of
                  (Inl e, track_users') \<Rightarrow>
                    collect_ratings cat rest (all_rated_tracks, track_users')
                | (Inr user_tracks, track_users') \<Rightarrow>
                    collect_ratings cat rest (all_rated_tracks @ user_tracks, track_users'))))"

text \<open>
  Lines 549-557: deduplication by \<^verbatim>\<open>ratingKey\<close>, leaving the loop at the cap. The cap
  \<^verbatim>\<open>max_songs\<close> is a natural number; the callers pass the default, 50.
\<close>

fun dedup_capped :: "nat \<Rightarrow> track list \<Rightarrow> track list \<Rightarrow> key set \<Rightarrow> track list" where
  "dedup_capped max_songs [] unique_tracks seen_keys = unique_tracks"
| "dedup_capped max_songs (t # ts) unique_tracks seen_keys =
     (if ratingKey t \<notin> seen_keys
      then (if length (unique_tracks @ [t]) \<ge> max_songs then unique_tracks @ [t]
            else dedup_capped max_songs ts (unique_tracks @ [t]) (insert (ratingKey t) seen_keys))
      else dedup_capped max_songs ts unique_tracks seen_keys)"

text \<open>Lines 546-557: the rating merge.\<close>

definition merge_ratings :: "nat \<Rightarrow> track list \<Rightarrow> track list" where
  "merge_ratings max_songs all_rated_tracks =
     dedup_capped max_songs (sorted_reverse (\<lambda>t. the (lastRatedAt t)) all_rated_tracks) [] {}"

text \<open>Lines 565-572.\<close>

definition rated_rows :: "(key \<rightharpoonup> username) \<Rightarrow> track list \<Rightarrow> rated_row list" where
  "rated_rows track_users unique_tracks =
     map (\<lambda>t. \<lparr>rr_title = title t, rr_artist = artist_of t,
               rr_user = (case track_users (ratingKey t) of Some u \<Rightarrow> u | None \<Rightarrow> ''Unknown''),
               rr_rated_at = lastRatedAt t\<rparr>) unique_tracks"

text \<open>
  Lines 581-612, inside the scope of one contributor: the raised exception if any, the
  scope as the body left it, and what the body added to \<^verbatim>\<open>total_added\<close>.
  \<^verbatim>\<open>if playlist:\<close> (line 588) lists the playlist; \<^verbatim>\<open>playlist.items()\<close> of lines 590 and
  601 is the list kept from there, and the one of line 601 does not hold the tracks that
  line 597 has just added.
\<close>

definition raves_update_scope ::
  "string \<Rightarrow> nat \<Rightarrow> track list \<Rightarrow> scope \<Rightarrow> exn option \<times> scope \<times> nat" where
  "raves_update_scope playlist_name max_songs unique_tracks user_plex =
     (let create =
            (case createPlaylist playlist_name unique_tracks user_plex of
               Inl e \<Rightarrow> (Some e, user_plex, 0)
             | Inr plex1 \<Rightarrow> (None, plex1, length unique_tracks))
      in
      case playlists user_plex of
        Inl e \<Rightarrow> (Some e, user_plex, 0)
      | Inr pls \<Rightarrow>
          (case find_playlist playlist_name pls of
             None \<Rightarrow> create
           | Some h \<Rightarrow>
               (case items user_plex h of
                  Inl e \<Rightarrow> (Some e, user_plex, 0)
                | Inr cached \<Rightarrow>
                    if cached \<noteq> [] then
                      (let existing_keys = (\<lambda>e. ratingKey (snd e)) ` set cached;
                           new_tracks = filter (\<lambda>t. ratingKey t \<notin> existing_keys) unique_tracks
                       in if new_tracks \<noteq> [] then
                            (case addItems h new_tracks user_plex of
                               Inl e \<Rightarrow> (Some e, user_plex, 0)
                             | Inr plex1 \<Rightarrow>
                                 (let current_items = cached in
                                  if length current_items > max_songs then
                                    (case removeItems h cached
                                            (map snd (drop max_songs current_items)) plex1 of
                                       (r, plex2) \<Rightarrow> (r, plex2, length new_tracks))
                                  else (None, plex1, length new_tracks)))
                          else (None, user_plex, 0))
                    else create)))"

text \<open>Lines 577-615: the loop over the contributors, every exception caught and logged.\<close>

fun raves_update_all ::
  "string \<Rightarrow> nat \<Rightarrow> track list \<Rightarrow> username list \<Rightarrow> catalog \<times> nat \<Rightarrow> catalog \<times> nat" where
  "raves_update_all playlist_name max_songs unique_tracks [] st = st"
| "raves_update_all playlist_name max_songs unique_tracks (username # rest) (cat, total_added) =
     (case switchUser cat username of
        Inl e \<Rightarrow> raves_update_all playlist_name max_songs unique_tracks rest (cat, total_added)
      | Inr user_plex \<Rightarrow>
          (case raves_update_scope playlist_name max_songs unique_tracks user_plex of
             (r, user_plex', n) \<Rightarrow>
               raves_update_all playlist_name max_songs unique_tracks rest
                 (store_scope username user_plex' cat, total_added + n)))"

definition update_recent_raves ::
  "catalog \<Rightarrow> username list \<Rightarrow> nat \<Rightarrow> string \<Rightarrow> raves_result \<times> catalog" where
  "update_recent_raves cat contributors max_songs playlist_name =
     (case collect_ratings cat contributors ([], Map.empty) of
        (all_rated_tracks, track_users) \<Rightarrow>
          if all_rated_tracks = [] then (\<lparr>added = 0, total = 0, tracks = []\<rparr>, cat)
          else
            (let unique_tracks = merge_ratings max_songs all_rated_tracks in
             if unique_tracks = [] then (\<lparr>added = 0, total = 0, tracks = []\<rparr>, cat)
             else
               (case raves_update_all playlist_name max_songs unique_tracks contributors (cat, 0) of
                  (cat', total_added) \<Rightarrow>
                    (\<lparr>added = total_added, total = length unique_tracks,
                      tracks = rated_rows track_users unique_tracks\<rparr>, cat'))))"

section \<open>Membership merge: \<^verbatim>\<open>sync_jam_jar\<close> and \<^verbatim>\<open>sync_staff_picks\<close>\<close>

text \<open>The values of \<^verbatim>\<open>track_info\<close>, the merge records.\<close>

record info =
  i_track :: track
  added_at :: "datetime option"
  added_by :: username
  i_title :: string
  i_artist :: string

text \<open>
  A row of the returned track list. \<^verbatim>\<open>added_at\<close> is the timestamp the source formats with
  \<^verbatim>\<open>strftime('%m/%d')\<close>; \<open>None\<close> stands for the empty string.
\<close>

record added_row =
  ar_title :: string
  ar_artist :: string
  ar_user :: username
  ar_added_at :: "datetime option"

record jam_result =
  jj_total :: nat
  jj_tracks :: "added_row list"

record staff_result =
  sp_total :: nat
  sp_tracks :: "added_row list"
  users_updated :: nat

text \<open>
  Lines 647-663 (and 765-779, the same text): one item folded into \<^verbatim>\<open>track_info\<close>.
  \<^verbatim>\<open>track_info\<close> is a Python dict, which keeps its keys in insertion order: an
  association list, where a new key goes to the end and an update stays in place.
\<close>

definition merge_item :: "username \<Rightarrow> track \<Rightarrow> (key \<times> info) list \<Rightarrow> (key \<times> info) list" where
  "merge_item username item track_info =
     (case map_of track_info (ratingKey item) of
        None \<Rightarrow>
          AList.update (ratingKey item)
            \<lparr>i_track = item, added_at = addedAt item, added_by = username,
             i_title = title item, i_artist = artist_of item\<rparr> track_info
      | Some existing \<Rightarrow>
          (case addedAt item of
             None \<Rightarrow> track_info
           | Some a \<Rightarrow>
               if (case added_at existing of None \<Rightarrow> True | Some b \<Rightarrow> a < b)
               then AList.update (ratingKey item)
                      (existing\<lparr>added_at := Some a, added_by := username\<rparr>) track_info
               else track_info))"

fun merge_items :: "username \<Rightarrow> track list \<Rightarrow> (key \<times> info) list \<Rightarrow> (key \<times> info) list" where
  "merge_items username [] track_info = track_info"
| "merge_items username (item # rest) track_info =
     merge_items username rest (merge_item username item track_info)"

text \<open>
  Lines 632-668 (and 751-784): the playlist of each replica read and folded in; a replica
  that cannot be read, or has no playlist of the name, contributes nothing.
  \<^verbatim>\<open>if playlist:\<close> (line 643) lists the playlist and \<^verbatim>\<open>items = playlist.items()\<close> is
  the list kept from there; a playlist that is empty contributes nothing in either branch.
\<close>

fun collect_membership ::
  "catalog \<Rightarrow> string \<Rightarrow> username list \<Rightarrow> (key \<times> info) list \<Rightarrow> (key \<times> info) list" where
  "collect_membership cat playlist_name [] track_info = track_info"
| "collect_membership cat playlist_name (username # rest) track_info =
     (case switchUser cat username of
        Inl e \<Rightarrow> collect_membership cat playlist_name rest track_info
      | Inr user_plex \<Rightarrow>
          (case playlists user_plex of
             Inl e \<Rightarrow> collect_membership cat playlist_name rest track_info
           | Inr pls \<Rightarrow>
               (case find_playlist playlist_name pls of
                  None \<Rightarrow> collect_membership cat playlist_name rest track_info
                | Some h \<Rightarrow>
                    (case items user_plex h of
                       Inl e \<Rightarrow> collect_membership cat playlist_name rest track_info
                     | Inr its \<Rightarrow>
                         collect_membership cat playlist_name rest
                           (merge_items username (map snd its) track_info)))))"

text \<open>Lines 690-694 (and 791-795): newest first, a record without timestamp as \<^verbatim>\<open>datetime.min\<close>.\<close>

definition sort_stamp :: "info \<Rightarrow> datetime" where
  "sort_stamp x = (case added_at x of Some d \<Rightarrow> d | None \<Rightarrow> datetime_min)"

definition sorted_tracks :: "(key \<times> info) list \<Rightarrow> info list" where
  "sorted_tracks track_info = sorted_reverse sort_stamp (map snd track_info)"

text \<open>Lines 697-706 (and 797-806).\<close>

definition tracks_to_sync :: "info list \<Rightarrow> track list" where
  "tracks_to_sync ordered = map i_track ordered"

definition track_list :: "info list \<Rightarrow> added_row list" where
  "track_list ordered =
     map (\<lambda>t. \<lparr>ar_title = i_title t, ar_artist = i_artist t, ar_user = added_by t,
               ar_added_at = added_at t\<rparr>) ordered"

text \<open>
  Lines 716-732 (and 819-831, 843-855), inside one scope: clear and repopulate the
  playlist, or create it. The raised exception if any, and the scope as the body left it.
  \<^verbatim>\<open>if playlist:\<close> (lines 722, 825, 849) lists the playlist, and
  \<^verbatim>\<open>current_items = playlist.items()\<close> is the list kept from there. A playlist of the
  name that is empty is not cleared and repopulated: the \<^verbatim>\<open>else\<close> branch creates another
  playlist of the name.
\<close>

definition replace_scope :: "string \<Rightarrow> track list \<Rightarrow> scope \<Rightarrow> exn option \<times> scope" where
  "replace_scope playlist_name ts user_plex =
     (let create =
            (case createPlaylist playlist_name ts user_plex of
               Inl e \<Rightarrow> (Some e, user_plex)
             | Inr plex1 \<Rightarrow> (None, plex1))
      in
      case playlists user_plex of
        Inl e \<Rightarrow> (Some e, user_plex)
      | Inr pls \<Rightarrow>
          (case find_playlist playlist_name pls of
             None \<Rightarrow> create
           | Some h \<Rightarrow>
               (case items user_plex h of
                  Inl e \<Rightarrow> (Some e, user_plex)
                | Inr cached \<Rightarrow>
                    if cached \<noteq> [] then
                      (let current_items = cached in
                       case (if current_items \<noteq> []
                             then removeItems h cached (map snd current_items) user_plex
                             else (None, user_plex)) of
                         (Some e, plex1) \<Rightarrow> (Some e, plex1)
                       | (None, plex1) \<Rightarrow>
                           (case addItems h ts plex1 of
                              Inl e \<Rightarrow> (Some e, plex1)
                            | Inr plex2 \<Rightarrow> (None, plex2)))
                    else create)))"

text \<open>
  Lines 673-685: the loop of the empty case, which only reads (\<^verbatim>\<open>if not existing:\<close>
  lists the playlist found).
\<close>

fun probe_members :: "string \<Rightarrow> username list \<Rightarrow> catalog \<Rightarrow> catalog" where
  "probe_members playlist_name [] cat = cat"
| "probe_members playlist_name (username # rest) cat =
     (case switchUser cat username of
        Inl e \<Rightarrow> probe_members playlist_name rest cat
      | Inr user_plex \<Rightarrow>
          (case playlists user_plex of
             Inl e \<Rightarrow> probe_members playlist_name rest cat
           | Inr pls \<Rightarrow>
               (case find_playlist playlist_name pls of
                  None \<Rightarrow> probe_members playlist_name rest cat
                | Some h \<Rightarrow>
                    (case items user_plex h of
                       Inl e \<Rightarrow> probe_members playlist_name rest cat
                     | Inr existing \<Rightarrow> probe_members playlist_name rest cat))))"

text \<open>Lines 711-735: the merged list pushed to every member, every exception caught.\<close>

fun jam_push_all :: "string \<Rightarrow> track list \<Rightarrow> username list \<Rightarrow> catalog \<Rightarrow> catalog" where
  "jam_push_all playlist_name ts [] cat = cat"
| "jam_push_all playlist_name ts (username # rest) cat =
     (case switchUser cat username of
        Inl e \<Rightarrow> jam_push_all playlist_name ts rest cat
      | Inr user_plex \<Rightarrow>
          (case replace_scope playlist_name ts user_plex of
             (r, user_plex') \<Rightarrow>
               jam_push_all playlist_name ts rest (store_scope username user_plex' cat)))"

definition sync_jam_jar :: "catalog \<Rightarrow> username list \<Rightarrow> string \<Rightarrow> jam_result \<times> catalog" where
  "sync_jam_jar cat members playlist_name =
     (let track_info = collect_membership cat playlist_name members [] in
      if track_info = [] then
        (\<lparr>jj_total = 0, jj_tracks = []\<rparr>, probe_members playlist_name members cat)
      else
        (let ordered = sorted_tracks track_info in
         (\<lparr>jj_total = length (tracks_to_sync ordered), jj_tracks = track_list ordered\<rparr>,
          jam_push_all playlist_name (tracks_to_sync ordered) members cat)))"

text \<open>
  Lines 839-861: the merged list pushed to every home user; \<^verbatim>\<open>users_updated\<close> counts the
  users whose body ran to its end.
\<close>

fun staff_push_all ::
  "string \<Rightarrow> track list \<Rightarrow> account_user list \<Rightarrow> catalog \<times> nat \<Rightarrow> catalog \<times> nat" where
  "staff_push_all playlist_name ts [] st = st"
| "staff_push_all playlist_name ts (user # rest) (cat, updated) =
     (case switchUser cat (au_title user) of
        Inl e \<Rightarrow> staff_push_all playlist_name ts rest (cat, updated)
      | Inr user_plex \<Rightarrow>
          (case replace_scope playlist_name ts user_plex of
             (Some e, user_plex') \<Rightarrow>
               staff_push_all playlist_name ts rest
                 (store_scope (au_title user) user_plex' cat, updated)
           | (None, user_plex') \<Rightarrow>
               staff_push_all playlist_name ts rest
                 (store_scope (au_title user) user_plex' cat, updated + 1)))"

text \<open>
  Lines 746-863. The account lookup of lines 811-812 is outside every \<^verbatim>\<open>try\<close>: when it
  raises, the exception leaves the function (\<open>Inl\<close>), before any write.
\<close>

definition sync_staff_picks ::
  "catalog \<Rightarrow> username list \<Rightarrow> string \<Rightarrow> (exn + staff_result) \<times> catalog" where
  "sync_staff_picks cat curators playlist_name =
     (let track_info = collect_membership cat playlist_name curators [] in
      if track_info = [] then (Inr \<lparr>sp_total = 0, sp_tracks = [], users_updated = 0\<rparr>, cat)
      else
        (let ordered = sorted_tracks track_info in
         case cat_account cat of
           None \<Rightarrow> (Inl AccountUnavailable, cat)
         | Some all_users \<Rightarrow>
             (let home_users = filter au_home all_users in
              case replace_scope playlist_name (tracks_to_sync ordered) (cat_admin cat) of
                (r, admin') \<Rightarrow>
                  (case staff_push_all playlist_name (tracks_to_sync ordered) home_users
                          (cat\<lparr>cat_admin := admin'\<rparr>, if r = None then 1 else 0) of
                     (cat', n) \<Rightarrow>
                       (Inr \<lparr>sp_total = length (tracks_to_sync ordered),
                             sp_tracks = track_list ordered, users_updated = n\<rparr>, cat')))))"

section \<open>Observations used in the statements\<close>

text \<open>
  What the collection loop of lines 632-668 reads from one replica: the items of its
  playlist of the name, and nothing when the replica cannot be read or has no such playlist.
\<close>

definition read_playlist :: "catalog \<Rightarrow> string \<Rightarrow> username \<Rightarrow> track list" where
  "read_playlist cat playlist_name username =
     (case switchUser cat username of
        Inl e \<Rightarrow> []
      | Inr user_plex \<Rightarrow>
          (case playlists user_plex of
             Inl e \<Rightarrow> []
           | Inr pls \<Rightarrow>
               (case find_playlist playlist_name pls of
                  None \<Rightarrow> []
                | Some h \<Rightarrow>
                    (case items user_plex h of Inl e \<Rightarrow> [] | Inr its \<Rightarrow> map snd its))))"

text \<open>The contents a replica shows under a name: empty when it has no playlist of the name.\<close>

definition playlist_contents :: "string \<Rightarrow> scope \<Rightarrow> track list" where
  "playlist_contents playlist_name sc =
     (case playlist_of playlist_name sc of None \<Rightarrow> [] | Some xs \<Rightarrow> xs)"

text \<open>The list \<^verbatim>\<open>tracks_to_sync\<close> that a membership sync over the given readers writes.\<close>

definition merged_tracks :: "catalog \<Rightarrow> string \<Rightarrow> username list \<Rightarrow> track list" where
  "merged_tracks cat playlist_name readers =
     tracks_to_sync (sorted_tracks (collect_membership cat playlist_name readers []))"

text \<open>Every record is filed under the key of its own track.\<close>

definition keyed :: "(key \<times> info) list \<Rightarrow> bool" where
  "keyed ti = list_all (\<lambda>p. ratingKey (i_track (snd p)) = fst p) ti"

text \<open>What the body of one replica adds to the counter, from the replica's own scope.\<close>

definition raves_added :: "catalog \<Rightarrow> string \<Rightarrow> nat \<Rightarrow> track list \<Rightarrow> username \<Rightarrow> nat" where
  "raves_added cat n m U u =
     (case cat_users cat u of None \<Rightarrow> 0 | Some sc \<Rightarrow> snd (snd (raves_update_scope n m U sc)))"

text \<open>Whether the body of lines 840-857 runs to its end for a home user, from the user's own scope.\<close>

definition staff_ok :: "catalog \<Rightarrow> string \<Rightarrow> track list \<Rightarrow> account_user \<Rightarrow> bool" where
  "staff_ok cat n ts user =
     (case cat_users cat (au_title user) of
        None \<Rightarrow> False
      | Some sc \<Rightarrow> fst (replace_scope n ts sc) = None)"

text \<open>
  For the earliest-wins rule: a timestamp seen at replica \<open>u\<close> that is absent, or later than
  \<open>t1\<close>, or \<open>t1\<close> itself at replica \<open>a\<close>; and the record of a key being stamped \<open>t1\<close> and
  attributed to \<open>a\<close>.
\<close>

definition not_before :: "datetime \<Rightarrow> username \<Rightarrow> username \<Rightarrow> datetime option \<Rightarrow> bool" where
  "not_before t1 a u stamp = (case stamp of None \<Rightarrow> True | Some t \<Rightarrow> t1 < t \<or> (t = t1 \<and> u = a))"

definition won :: "datetime \<Rightarrow> username \<Rightarrow> key \<Rightarrow> (key \<times> info) list \<Rightarrow> bool" where
  "won t1 a k ti = (case map_of ti k of None \<Rightarrow> False
                    | Some e \<Rightarrow> added_at e = Some t1 \<and> added_by e = a)"

text \<open>A replica that cannot be reached, or each of whose write operations raises.\<close>

definition write_blocked :: "catalog \<Rightarrow> username \<Rightarrow> bool" where
  "write_blocked cat b =
     (case cat_users cat b of
        None \<Rightarrow> True
      | Some sc \<Rightarrow> OpAddItems \<in> sc_faults sc \<and> OpRemoveItems \<in> sc_faults sc
                    \<and> OpCreatePlaylist \<in> sc_faults sc)"

text \<open>The merged list of lines 546-557 of a run over the given contributors.\<close>

definition raves_merged :: "catalog \<Rightarrow> username list \<Rightarrow> nat \<Rightarrow> track list" where
  "raves_merged cat contributors max_songs =
     merge_ratings max_songs (fst (collect_ratings cat contributors ([], Map.empty)))"

text \<open>
  A scope in which the body of lines 716-732 creates the playlist or clears and repopulates
  it: the scope has no playlist of the name, or the first one of the name is not empty and
  lists no track twice.
\<close>

definition replaceable :: "string \<Rightarrow> scope \<Rightarrow> bool" where
  "replaceable playlist_name sc =
     (case playlist_of playlist_name sc of
        None \<Rightarrow> True
      | Some xs \<Rightarrow> xs \<noteq> [] \<and> distinct (map ratingKey xs))"

text \<open>The playlists of a replica, each with its title and its items.\<close>

definition playlists_at :: "catalog \<Rightarrow> username \<Rightarrow> (string \<times> track list) list option" where
  "playlists_at cat username =
     map_option (\<lambda>sc. map (\<lambda>pl. (pl_title pl, pl_items pl)) (sc_playlists sc)) (cat_users cat username)"

section \<open>Reference scenarios\<close>

definition mk_track :: "key \<Rightarrow> string \<Rightarrow> datetime option \<Rightarrow> datetime option \<Rightarrow> track" where
  "mk_track k name rated added_on =
     \<lparr>ratingKey = k, title = name, grandparentTitle = ''Artist'', originalTitle = [],
      lastRatedAt = rated, addedAt = added_on\<rparr>"

definition mk_scope :: "track list \<Rightarrow> playlist list \<Rightarrow> scope" where
  "mk_scope rated pls =
     \<lparr>sc_sections = [\<lparr>sec_type = ''artist'', search_raises = False, search_results = rated\<rparr>],
      sc_playlists = pls, sc_faults = {}\<rparr>"

definition quiet_cat :: catalog where
  "quiet_cat = \<lparr>cat_users = [''A'' \<mapsto> mk_scope [] []], cat_admin = mk_scope [] [],
                 cat_account = Some []\<rparr>"

definition raves_cat :: catalog where
  "raves_cat =
     \<lparr>cat_users =
        [''A'' \<mapsto> mk_scope [mk_track 1 ''T1'' (Some 1) None, mk_track 2 ''T2'' (Some 3) None] [],
         ''B'' \<mapsto> mk_scope [mk_track 2 ''T2'' (Some 2) None, mk_track 3 ''T3'' (Some 5) None] [],
         ''C'' \<mapsto> mk_scope [] []],
      cat_admin = mk_scope [] [], cat_account = Some []\<rparr>"

definition fifty :: "track list" where
  "fifty = map (\<lambda>k. mk_track k ''Old'' (Some k) None) [1..<51]"

definition new_track :: track where
  "new_track = mk_track 100 ''New'' (Some 1000) None"

definition full_scope :: scope where
  "full_scope =
     mk_scope (new_track # fifty) [\<lparr>pl_title = ''Recent Raves'', pl_items = fifty\<rparr>]"

definition full_cat :: catalog where
  "full_cat = \<lparr>cat_users = [''A'' \<mapsto> full_scope], cat_admin = mk_scope [] [], cat_account = Some []\<rparr>"

definition newer_track :: track where
  "newer_track = mk_track 101 ''Newer'' (Some 2000) None"

definition swap_scope :: scope where
  "swap_scope =
     mk_scope (newer_track # new_track # fifty)
       [\<lparr>pl_title = ''Recent Raves'', pl_items = fifty @ [new_track]\<rparr>]"

definition swap_cat :: catalog where
  "swap_cat = \<lparr>cat_users = [''A'' \<mapsto> swap_scope], cat_admin = mk_scope [] [], cat_account = Some []\<rparr>"

definition stuck_scope :: scope where
  "stuck_scope = swap_scope\<lparr>sc_faults := {OpRemoveItems}\<rparr>"

definition stuck_cat :: catalog where
  "stuck_cat = \<lparr>cat_users = [''A'' \<mapsto> stuck_scope], cat_admin = mk_scope [] [], cat_account = Some []\<rparr>"


definition T1 :: track where "T1 = mk_track 1 ''T1'' None (Some 1)"

definition T2 :: track where "T2 = mk_track 2 ''T2'' None (Some 2)"

definition T9 :: track where "T9 = mk_track 9 ''T9'' None (Some 9)"

definition jam_cat :: catalog where
  "jam_cat =
     \<lparr>cat_users =
        [''A'' \<mapsto> mk_scope [] [\<lparr>pl_title = ''Jam Jar'', pl_items = [T1]\<rparr>],
         ''B'' \<mapsto> mk_scope [] [\<lparr>pl_title = ''Jam Jar'', pl_items = [T2]\<rparr>],
         ''C'' \<mapsto> mk_scope [] []],
      cat_admin = mk_scope [] [], cat_account = Some []\<rparr>"

definition hollow_cat :: catalog where
  "hollow_cat =
     \<lparr>cat_users =
        [''A'' \<mapsto> mk_scope [] [\<lparr>pl_title = ''Jam Jar'', pl_items = [T1]\<rparr>],
         ''B'' \<mapsto> mk_scope [] [\<lparr>pl_title = ''Jam Jar'', pl_items = []\<rparr>]],
      cat_admin = mk_scope [] [], cat_account = Some []\<rparr>"



definition broken_scope :: scope where
  "broken_scope = \<lparr>sc_sections = [], sc_playlists = [], sc_faults = {OpAddItems, OpRemoveItems, OpCreatePlaylist}\<rparr>"

definition iso_users :: "account_user list" where
  "iso_users = [\<lparr>au_title = ''A'', au_home = True\<rparr>, \<lparr>au_title = ''B'', au_home = True\<rparr>,
                \<lparr>au_title = ''C'', au_home = True\<rparr>]"

definition iso_cat :: catalog where
  "iso_cat =
     \<lparr>cat_users =
        [''A'' \<mapsto> mk_scope [new_track] [], ''B'' \<mapsto> broken_scope,
         ''C'' \<mapsto> mk_scope [] [\<lparr>pl_title = ''Mix'', pl_items = [T9]\<rparr>]],
      cat_admin = mk_scope [] [], cat_account = Some iso_users\<rparr>"

definition XA :: track where "XA = mk_track 7 ''X'' None (Some 1)"

definition XB :: track where "XB = mk_track 7 ''X'' None (Some 2)"

definition earliest_cat :: catalog where
  "earliest_cat =
     \<lparr>cat_users =
        [''A'' \<mapsto> mk_scope [] [\<lparr>pl_title = ''Jam Jar'', pl_items = [XA]\<rparr>],
         ''B'' \<mapsto> mk_scope [] [\<lparr>pl_title = ''Jam Jar'', pl_items = [XB]\<rparr>]],
      cat_admin = mk_scope [] [], cat_account = Some []\<rparr>"

definition U4 :: track where "U4 = mk_track 4 ''U'' None None"

definition V5 :: track where "V5 = mk_track 5 ''V'' None (Some 5)"

definition Z6 :: track where "Z6 = mk_track 6 ''Z'' None (Some datetime_min)"

definition unstamped_cat :: catalog where
  "unstamped_cat =
     \<lparr>cat_users = [''A'' \<mapsto> mk_scope [] [\<lparr>pl_title = ''Jam Jar'', pl_items = [U4, V5]\<rparr>]],
      cat_admin = mk_scope [] [], cat_account = Some []\<rparr>"

definition min_cat :: catalog where
  "min_cat =
     \<lparr>cat_users = [''A'' \<mapsto> mk_scope [] [\<lparr>pl_title = ''Jam Jar'', pl_items = [U4, Z6]\<rparr>]],
      cat_admin = mk_scope [] [], cat_account = Some []\<rparr>"

definition cap_cat :: catalog where
  "cap_cat =
     \<lparr>cat_users =
        [''A'' \<mapsto> mk_scope (mk_track 0 ''Shared'' (Some 1) None
                      # map (\<lambda>k. mk_track k ''Hit'' (Some (100 + k)) None) [1..<51]) [],
         ''B'' \<mapsto> mk_scope [mk_track 0 ''Shared'' (Some 2) None] []],
      cat_admin = mk_scope [] [], cat_account = Some []\<rparr>"

definition titles_cat :: catalog where
  "titles_cat =
     \<lparr>cat_users =
        [''A'' \<mapsto> mk_scope [] [\<lparr>pl_title = ''Jam Jar'',
            pl_items = [mk_track 11 ''Same'' None (Some 1), mk_track 12 ''Same'' None (Some 2)]\<rparr>],
         ''B'' \<mapsto> mk_scope [] [\<lparr>pl_title = ''Jam Jar'',
            pl_items = [mk_track 11 ''Other'' None (Some 3)]\<rparr>]],
      cat_admin = mk_scope [] [], cat_account = Some []\<rparr>"


definition elsewhere_cat :: catalog where
  "elsewhere_cat =
     \<lparr>cat_users =
        [''A'' \<mapsto> mk_scope [] [\<lparr>pl_title = ''Jam Jar'', pl_items = [U4]\<rparr>],
         ''B'' \<mapsto> mk_scope [] [\<lparr>pl_title = ''Jam Jar'',
            pl_items = [mk_track 4 ''U'' None (Some 5)]\<rparr>]],
      cat_admin = mk_scope [] [], cat_account = Some []\<rparr>"

section \<open>Auxiliary lemmas\<close>

lemma probe_members_id: "probe_members playlist_name members cat = cat"
  by (induction members) (simp_all split: sum.splits option.splits)

lemma find_playlist_Some:
  "find_playlist n pls = Some h \<Longrightarrow> h < length pls \<and> pl_title (pls ! h) = n"
  by (induction pls arbitrary: h) (auto split: if_splits)

lemma find_playlist_titles:
  "map pl_title pls' = map pl_title pls \<Longrightarrow> find_playlist n pls' = find_playlist n pls"
proof (induction pls arbitrary: pls')
  case Nil
  then show ?case by simp
next
  case (Cons p ps)
  from Cons.prems obtain q qs where q: "pls' = q # qs" "pl_title q = pl_title p"
    "map pl_title qs = map pl_title ps" by (cases pls') auto
  have "find_playlist n qs = find_playlist n ps" using q(3) by (rule Cons.IH)
  then show ?case using q(1,2) by simp
qed

lemma find_playlist_append_new:
  "find_playlist n pls = None \<Longrightarrow>
   find_playlist n (pls @ [\<lparr>pl_title = n, pl_items = ts\<rparr>]) = Some (length pls)"
  by (induction pls) (auto split: if_splits)

lemma mset_sorted_reverse [simp]: "mset (sorted_reverse k xs) = mset xs"
  by (simp add: sorted_reverse_def)

lemma distinct_map_sorted_reverse:
  "distinct (map f (sorted_reverse k xs)) = distinct (map f xs)"
proof -
  have "mset (map f (sorted_reverse k xs)) = mset (map f xs)" by simp
  then show ?thesis by (rule mset_eq_imp_distinct_iff)
qed

lemma sorted_reverse_nth:
  assumes "i < j" "j < length xs"
  shows "k (sorted_reverse k xs ! j) \<le> k (sorted_reverse k xs ! i)"
proof -
  let ?s = "sort_key k (rev xs)"
  let ?n = "length xs"
  have len: "length ?s = ?n" by simp
  have srt: "sorted (map k ?s)" by simp
  have "sorted_reverse k xs ! j = ?s ! (?n - Suc j)" "sorted_reverse k xs ! i = ?s ! (?n - Suc i)"
    using assms by (simp_all add: sorted_reverse_def rev_nth)
  moreover have "map k ?s ! (?n - Suc j) \<le> map k ?s ! (?n - Suc i)"
    using assms by (intro sorted_nth_mono[OF srt]) (simp_all add: len)
  ultimately show ?thesis using assms by (simp add: len)
qed

lemma faults_upd_items [simp]: "sc_faults (upd_items h f sc) = sc_faults sc"
  by (simp add: upd_items_def)

lemma sections_upd_items [simp]: "sc_sections (upd_items h f sc) = sc_sections sc"
  by (simp add: upd_items_def)

lemma titles_upd_items: "map pl_title (sc_playlists (upd_items h f sc)) = map pl_title (sc_playlists sc)"
proof -
  have "(map pl_title xs)[h := pl_title (xs ! h)] = map pl_title xs" for xs :: "playlist list"
    by (cases "h < length xs") (simp_all add: list_update_same_conv list_update_beyond)
  then show ?thesis by (simp add: upd_items_def map_update)
qed

lemma enumerate_eq_Nil [simp]: "enumerate n xs = [] \<longleftrightarrow> xs = []"
  by (cases xs) simp_all

lemma find_playlist_upd_items [simp]:
  "find_playlist n (sc_playlists (upd_items h f sc)) = find_playlist n (sc_playlists sc)"
  by (rule find_playlist_titles) (rule titles_upd_items)

lemma items_upd_items:
  "h < length (sc_playlists sc) \<Longrightarrow>
   pl_items (sc_playlists (upd_items h f sc) ! h) = f (pl_items (sc_playlists sc ! h))"
  by (simp add: upd_items_def)

lemma playlist_of_upd_items:
  "find_playlist n (sc_playlists sc) = Some h \<Longrightarrow>
   playlist_of n (upd_items h f sc) = Some (f (pl_items (sc_playlists sc ! h)))"
  by (simp add: playlist_of_def items_upd_items find_playlist_Some)

lemma playlist_of_Some:
  "find_playlist n (sc_playlists sc) = Some h \<Longrightarrow>
   playlist_of n sc = Some (pl_items (sc_playlists sc ! h))"
  by (simp add: playlist_of_def)

lemma playlist_of_None:
  "find_playlist n (sc_playlists sc) = None \<Longrightarrow> playlist_of n sc = None"
  by (simp add: playlist_of_def)

lemma upd_items_twice:
  "h < length (sc_playlists sc) \<Longrightarrow> upd_items h g (upd_items h f sc) = upd_items h (g \<circ> f) sc"
  by (simp add: upd_items_def)

lemma switchUser_Some [simp]: "cat_users cat u = Some sc \<Longrightarrow> switchUser cat u = Inr sc"
  by (simp add: switchUser_def)

lemma switchUser_None [simp]: "cat_users cat u = None \<Longrightarrow> switchUser cat u = Inl ScopeUnavailable"
  by (simp add: switchUser_def)

lemma switchUser_store [simp]:
  "switchUser (store_scope v sc cat) u = (if u = v then Inr sc else switchUser cat u)"
  by (simp add: switchUser_def store_scope_def)

lemma users_store [simp]:
  "cat_users (store_scope v sc cat) u = (if u = v then Some sc else cat_users cat u)"
  by (simp add: store_scope_def)

lemma admin_store [simp]: "cat_admin (store_scope v sc cat) = cat_admin cat"
  by (simp add: store_scope_def)

lemma account_store [simp]: "cat_account (store_scope v sc cat) = cat_account cat"
  by (simp add: store_scope_def)

lemma jam_push_all_other:
  "u \<notin> set members \<Longrightarrow> cat_users (jam_push_all n ts members cat) u = cat_users cat u"
  by (induction members arbitrary: cat) (auto split: sum.splits prod.splits)

lemma jam_push_all_admin [simp]: "cat_admin (jam_push_all n ts members cat) = cat_admin cat"
  by (induction members arbitrary: cat) (auto split: sum.splits prod.splits)

lemma jam_push_all_account [simp]: "cat_account (jam_push_all n ts members cat) = cat_account cat"
  by (induction members arbitrary: cat) (auto split: sum.splits prod.splits)

lemma jam_push_all_distinct:
  "distinct members \<Longrightarrow> c \<in> set members \<Longrightarrow> cat_users cat c = Some sc \<Longrightarrow>
   cat_users (jam_push_all n ts members cat) c = Some (snd (replace_scope n ts sc))"
proof (induction members arbitrary: cat)
  case Nil
  then show ?case by simp
next
  case (Cons v rest)
  show ?case
  proof (cases "v = c")
    case True
    then have "c \<notin> set rest" using Cons.prems(1) by simp
    then show ?thesis using True Cons.prems(3)
      by (simp add: jam_push_all_other split: prod.splits)
  next
    case False
    then have c: "c \<in> set rest" using Cons.prems(2) by simp
    have d: "distinct rest" using Cons.prems(1) by simp
    show ?thesis
    proof (cases "switchUser cat v")
      case (Inl e)
      then show ?thesis using Cons.IH [OF d c Cons.prems(3)] by simp
    next
      case (Inr sv)
      obtain r sv' where rs: "replace_scope n ts sv = (r, sv')" by (cases "replace_scope n ts sv")
      have "cat_users (store_scope v sv' cat) c = Some sc" using False Cons.prems(3) by simp
      from Cons.IH [OF d c this] show ?thesis using Inr rs by simp
    qed
  qed
qed

lemma staff_push_all_fst:
  "fst (staff_push_all n ts us (cat, k)) = jam_push_all n ts (map au_title us) cat"
  by (induction us arbitrary: cat k) (auto split: sum.splits prod.splits option.splits)

lemma collect_membership_Cons:
  "collect_membership cat n (u # rest) ti =
   collect_membership cat n rest (merge_items u (read_playlist cat n u) ti)"
  by (simp add: read_playlist_def split: sum.splits option.splits)

lemma map_of_None_iff: "map_of ti k = None \<longleftrightarrow> k \<notin> fst ` set ti"
  by (simp add: map_of_eq_None_iff)

lemma keys_merge_item:
  "fst ` set (merge_item u x ti) = insert (ratingKey x) (fst ` set ti)"
proof -
  have "map_of ti (ratingKey x) = Some e \<Longrightarrow> ratingKey x \<in> fst ` set ti" for e
    by (metis map_of_None_iff option.distinct(1))
  then show ?thesis
    by (auto simp: merge_item_def AList.dom_update[simplified dom_map_of_conv_image_fst] map_of_None_iff
        split: option.splits)
qed

lemma distinct_merge_item:
  "distinct (map fst ti) \<Longrightarrow> distinct (map fst (merge_item u x ti))"
  by (simp add: merge_item_def AList.distinct_update split: option.splits)

lemma keys_merge_items:
  "fst ` set (merge_items u xs ti) = ratingKey ` set xs \<union> fst ` set ti"
  by (induction xs arbitrary: ti) (auto simp: keys_merge_item)

lemma distinct_merge_items:
  "distinct (map fst ti) \<Longrightarrow> distinct (map fst (merge_items u xs ti))"
  by (induction xs arbitrary: ti) (simp_all add: distinct_merge_item)

lemma keys_collect_membership:
  "fst ` set (collect_membership cat n members ti) =
   (\<Union>u \<in> set members. ratingKey ` set (read_playlist cat n u)) \<union> fst ` set ti"
proof (induction members arbitrary: ti)
  case Nil
  then show ?case by simp
next
  case (Cons u rest)
  show ?case unfolding collect_membership_Cons Cons.IH keys_merge_items by auto
qed

lemma distinct_collect_membership:
  "distinct (map fst ti) \<Longrightarrow> distinct (map fst (collect_membership cat n members ti))"
proof (induction members arbitrary: ti)
  case Nil
  then show ?case by simp
next
  case (Cons u rest)
  show ?case unfolding collect_membership_Cons
    by (rule Cons.IH) (rule distinct_merge_items [OF Cons.prems])
qed

lemma keyed_update:
  "keyed ti \<Longrightarrow> ratingKey (i_track v) = k \<Longrightarrow> keyed (AList.update k v ti)"
  by (induction ti) (auto simp: keyed_def)

lemma keyed_map_of: "keyed ti \<Longrightarrow> map_of ti k = Some e \<Longrightarrow> ratingKey (i_track e) = k"
  by (induction ti) (auto simp: keyed_def split: if_splits)

lemma keyed_merge_item: "keyed ti \<Longrightarrow> keyed (merge_item u x ti)"
  by (auto simp: merge_item_def keyed_update keyed_map_of split: option.splits)

lemma keyed_merge_items: "keyed ti \<Longrightarrow> keyed (merge_items u xs ti)"
  by (induction xs arbitrary: ti) (simp_all add: keyed_merge_item)

lemma keyed_collect_membership: "keyed ti \<Longrightarrow> keyed (collect_membership cat n members ti)"
proof (induction members arbitrary: ti)
  case Nil
  then show ?case by simp
next
  case (Cons u rest)
  show ?case unfolding collect_membership_Cons
    by (rule Cons.IH) (rule keyed_merge_items [OF Cons.prems])
qed

lemma keyed_keys: "keyed ti \<Longrightarrow> map (ratingKey \<circ> i_track \<circ> snd) ti = map fst ti"
  by (induction ti) (auto simp: keyed_def)



lemma keys_enumerate:
  "(\<lambda>e. ratingKey (snd e)) ` set (enumerate i xs) = ratingKey ` set xs"
proof -
  have "(\<lambda>e. ratingKey (snd e)) ` set (enumerate i xs) = ratingKey ` (snd ` set (enumerate i xs))"
    by (simp add: image_image)
  also have "snd ` set (enumerate i xs) = set (map snd (enumerate i xs))"
    by (simp only: set_map)
  also have "\<dots> = set xs" by (simp only: map_snd_enumerate)
  finally show ?thesis .
qed


lemma raves_update_all_other:
  "u \<notin> set targets \<Longrightarrow>
   cat_users (fst (raves_update_all n m U targets (cat, t))) u = cat_users cat u"
  by (induction targets arbitrary: cat t) (auto split: sum.splits prod.splits)

lemma raves_added_store:
  "u \<noteq> v \<Longrightarrow> raves_added (store_scope v sc cat) n m U u = raves_added cat n m U u"
  by (simp add: raves_added_def)

lemma raves_update_all_distinct:
  "distinct targets \<Longrightarrow>
   snd (raves_update_all n m U targets (cat, t)) = t + sum_list (map (raves_added cat n m U) targets)
   \<and> (\<forall>c sc. c \<in> set targets \<longrightarrow> cat_users cat c = Some sc \<longrightarrow>
        cat_users (fst (raves_update_all n m U targets (cat, t))) c =
          Some (fst (snd (raves_update_scope n m U sc))))"
proof (induction targets arbitrary: cat t)
  case Nil
  then show ?case by simp
next
  case (Cons v rest)
  have d: "distinct rest" and v: "v \<notin> set rest" using Cons.prems by simp_all
  show ?case
  proof (cases "cat_users cat v")
    case None
    then show ?thesis using Cons.IH [OF d, of cat t] v by (auto simp: raves_added_def)
  next
    case (Some sv)
    obtain r sv' k where rs: "raves_update_scope n m U sv = (r, sv', k)"
      by (cases "raves_update_scope n m U sv") auto
    let ?cat = "store_scope v sv' cat"
    have same: "map (raves_added ?cat n m U) rest = map (raves_added cat n m U) rest"
      using v by (intro map_cong refl) (auto intro!: raves_added_store)
    have step: "raves_update_all n m U (v # rest) (cat, t) = raves_update_all n m U rest (?cat, t + k)"
      using Some rs by simp
    have kv: "raves_added cat n m U v = k" using Some rs by (simp add: raves_added_def)
    have ih1: "snd (raves_update_all n m U rest (?cat, t + k)) =
        t + k + sum_list (map (raves_added ?cat n m U) rest)"
      using Cons.IH [OF d, of ?cat "t + k"] by simp
    have ih2: "cat_users (fst (raves_update_all n m U rest (?cat, t + k))) c =
        Some (fst (snd (raves_update_scope n m U sc)))"
      if "c \<in> set rest" "cat_users ?cat c = Some sc" for c sc
      using Cons.IH [OF d, of ?cat "t + k"] that by blast
    show ?thesis
    proof (intro conjI allI impI)
      show "snd (raves_update_all n m U (v # rest) (cat, t)) =
          t + sum_list (map (raves_added cat n m U) (v # rest))"
        unfolding step using ih1 same kv by simp
    next
      fix c sc
      assume c: "c \<in> set (v # rest)" and sc: "cat_users cat c = Some sc"
      show "cat_users (fst (raves_update_all n m U (v # rest) (cat, t))) c =
          Some (fst (snd (raves_update_scope n m U sc)))"
      proof (cases "c = v")
        case True
        then have "sc = sv" using sc Some by simp
        then show ?thesis unfolding step using True v rs
          by (simp add: raves_update_all_other)
      next
        case False
        then have "c \<in> set rest" "cat_users ?cat c = Some sc" using c sc by simp_all
        then show ?thesis unfolding step by (rule ih2)
      qed
    qed
  qed
qed



lemma staff_ok_store:
  "au_title u \<noteq> v \<Longrightarrow> staff_ok (store_scope v sc cat) n ts u = staff_ok cat n ts u"
  by (simp add: staff_ok_def)

lemma staff_push_all_count:
  "distinct (map au_title us) \<Longrightarrow>
   snd (staff_push_all n ts us (cat, k)) = k + length (filter (staff_ok cat n ts) us)"
proof (induction us arbitrary: cat k)
  case Nil
  then show ?case by simp
next
  case (Cons v rest)
  have d: "distinct (map au_title rest)" and v: "au_title v \<notin> au_title ` set rest"
    using Cons.prems by simp_all
  show ?case
  proof (cases "cat_users cat (au_title v)")
    case None
    then show ?thesis using Cons.IH [OF d, of cat k] by (simp add: staff_ok_def)
  next
    case (Some sv)
    obtain r sv' where rs: "replace_scope n ts sv = (r, sv')" by (cases "replace_scope n ts sv")
    let ?cat = "store_scope (au_title v) sv' cat"
    have same: "filter (staff_ok ?cat n ts) rest = filter (staff_ok cat n ts) rest"
      using v by (intro filter_cong refl staff_ok_store) (metis image_eqI)
    have kv: "staff_ok cat n ts v \<longleftrightarrow> r = None" using Some rs by (simp add: staff_ok_def)
    show ?thesis
    proof (cases r)
      case None
      then show ?thesis using Cons.IH [OF d, of ?cat "k + 1"] Some rs same kv by simp
    next
      case (Some e)
      then show ?thesis
        using Cons.IH [OF d, of ?cat k] \<open>cat_users cat (au_title v) = Some sv\<close> rs same kv
        by simp
    qed
  qed
qed

lemma staff_push_all_admin [simp]:
  "cat_admin (fst (staff_push_all n ts us (cat, k))) = cat_admin cat"
  by (simp add: staff_push_all_fst)

lemma sync_staff_picks_nonempty:
  assumes acc: "cat_account cat = Some all_users"
    and ne: "collect_membership cat n curators [] \<noteq> []"
  shows "sync_staff_picks cat curators n =
     (case replace_scope n (merged_tracks cat n curators) (cat_admin cat) of
        (r, admin') \<Rightarrow>
          (case staff_push_all n (merged_tracks cat n curators) (filter au_home all_users)
                  (cat\<lparr>cat_admin := admin'\<rparr>, if r = None then 1 else 0) of
             (cat', k) \<Rightarrow>
               (Inr \<lparr>sp_total = length (merged_tracks cat n curators),
                     sp_tracks = track_list (sorted_tracks (collect_membership cat n curators [])),
                     users_updated = k\<rparr>, cat')))"
  using acc ne by (simp add: sync_staff_picks_def Let_def merged_tracks_def)

lemma staff_push_all_distinct:
  assumes "distinct (map au_title us)" "c \<in> set us" "cat_users cat (au_title c) = Some sc"
  shows "cat_users (fst (staff_push_all n ts us (cat, k))) (au_title c) =
     Some (snd (replace_scope n ts sc))"
  unfolding staff_push_all_fst
  by (rule jam_push_all_distinct) (use assms in auto)

lemma map_of_update:
  "map_of (AList.update k v ti) k' = (if k' = k then Some v else map_of ti k')"
  by (simp add: update_conv')

lemma map_of_merge_item_other:
  "ratingKey x \<noteq> k \<Longrightarrow> map_of (merge_item u x ti) k = map_of ti k"
  by (simp add: merge_item_def map_of_update split: option.splits)

lemma map_of_merge_item_new:
  "map_of ti (ratingKey x) = None \<Longrightarrow>
   map_of (merge_item u x ti) (ratingKey x) =
     Some \<lparr>i_track = x, added_at = addedAt x, added_by = u, i_title = title x, i_artist = artist_of x\<rparr>"
  by (simp add: merge_item_def map_of_update)

lemma map_of_merge_item_old:
  "map_of ti (ratingKey x) = Some e \<Longrightarrow>
   map_of (merge_item u x ti) (ratingKey x) =
     Some (case addedAt x of
             None \<Rightarrow> e
           | Some a \<Rightarrow>
               if (case added_at e of None \<Rightarrow> True | Some b \<Rightarrow> a < b)
               then e\<lparr>added_at := Some a, added_by := u\<rparr> else e)"
  by (simp add: merge_item_def map_of_update split: option.splits)

text \<open>The record of a key is never stamped before the earliest occurrence folded in.\<close>

lemma merge_item_not_before:
  assumes occ: "ratingKey x = k \<longrightarrow> not_before t1 a u (addedAt x)"
    and inv: "\<forall>e. map_of ti k = Some e \<longrightarrow> not_before t1 a (added_by e) (added_at e)"
  shows "\<forall>e. map_of (merge_item u x ti) k = Some e \<longrightarrow> not_before t1 a (added_by e) (added_at e)"
proof (cases "ratingKey x = k")
  case False
  then show ?thesis using inv by (simp add: map_of_merge_item_other)
next
  case True
  show ?thesis
  proof (cases "map_of ti k")
    case None
    then show ?thesis using True occ map_of_merge_item_new [of ti x u] by auto
  next
    case (Some e0)
    then show ?thesis using True occ inv map_of_merge_item_old [of ti x e0 u]
      by (auto simp: not_before_def split: option.splits if_splits)
  qed
qed

lemma merge_item_won:
  assumes occ: "ratingKey x = k \<longrightarrow> not_before t1 a u (addedAt x)"
    and inv: "\<forall>e. map_of ti k = Some e \<longrightarrow> not_before t1 a (added_by e) (added_at e)"
    and w: "won t1 a k ti \<or> (ratingKey x = k \<and> addedAt x = Some t1 \<and> u = a)"
  shows "won t1 a k (merge_item u x ti)"
proof (cases "ratingKey x = k")
  case False
  then show ?thesis using w by (simp add: won_def map_of_merge_item_other)
next
  case True
  show ?thesis
  proof (cases "map_of ti k")
    case None
    then show ?thesis using True w map_of_merge_item_new [of ti x u] by (auto simp: won_def)
  next
    case (Some e0)
    then show ?thesis using True occ inv w map_of_merge_item_old [of ti x e0 u]
      by (auto simp: won_def not_before_def split: option.splits if_splits)
  qed
qed

lemma merge_items_earliest:
  assumes "\<forall>x \<in> set xs. ratingKey x = k \<longrightarrow> not_before t1 a u (addedAt x)"
    and "\<forall>e. map_of ti k = Some e \<longrightarrow> not_before t1 a (added_by e) (added_at e)"
  shows "(\<forall>e. map_of (merge_items u xs ti) k = Some e \<longrightarrow> not_before t1 a (added_by e) (added_at e))
       \<and> (won t1 a k ti \<or> (u = a \<and> (\<exists>x \<in> set xs. ratingKey x = k \<and> addedAt x = Some t1))
            \<longrightarrow> won t1 a k (merge_items u xs ti))"
  using assms
proof (induction xs arbitrary: ti)
  case Nil
  then show ?case by simp
next
  case (Cons x xs)
  have occ: "ratingKey x = k \<longrightarrow> not_before t1 a u (addedAt x)" using Cons.prems(1) by simp
  have rest: "\<forall>y \<in> set xs. ratingKey y = k \<longrightarrow> not_before t1 a u (addedAt y)"
    using Cons.prems(1) by simp
  have inv': "\<forall>e. map_of (merge_item u x ti) k = Some e \<longrightarrow> not_before t1 a (added_by e) (added_at e)"
    using occ Cons.prems(2) by (rule merge_item_not_before)
  note ih = Cons.IH [OF rest inv']
  have "won t1 a k (merge_item u x ti)"
    if "won t1 a k ti \<or> (ratingKey x = k \<and> addedAt x = Some t1 \<and> u = a)"
    using occ Cons.prems(2) that by (rule merge_item_won)
  then show ?case using ih by auto
qed

lemma collect_membership_earliest:
  assumes "\<forall>u \<in> set members. \<forall>x \<in> set (read_playlist cat n u).
      ratingKey x = k \<longrightarrow> not_before t1 a u (addedAt x)"
    and "\<forall>e. map_of ti k = Some e \<longrightarrow> not_before t1 a (added_by e) (added_at e)"
  shows "(\<forall>e. map_of (collect_membership cat n members ti) k = Some e \<longrightarrow>
            not_before t1 a (added_by e) (added_at e))
       \<and> (won t1 a k ti
            \<or> (a \<in> set members \<and> (\<exists>x \<in> set (read_playlist cat n a). ratingKey x = k \<and> addedAt x = Some t1))
            \<longrightarrow> won t1 a k (collect_membership cat n members ti))"
  using assms
proof (induction members arbitrary: ti)
  case Nil
  then show ?case by simp
next
  case (Cons u rest)
  have occ: "\<forall>x \<in> set (read_playlist cat n u). ratingKey x = k \<longrightarrow> not_before t1 a u (addedAt x)"
    using Cons.prems(1) by simp
  have others: "\<forall>v \<in> set rest. \<forall>x \<in> set (read_playlist cat n v).
      ratingKey x = k \<longrightarrow> not_before t1 a v (addedAt x)"
    using Cons.prems(1) by simp
  note step = merge_items_earliest [OF occ Cons.prems(2)]
  note ih = Cons.IH [OF others step [THEN conjunct1]]
  show ?case unfolding collect_membership_Cons using ih step [THEN conjunct2] by auto
qed

lemma count_distinct_keys:
  "distinct (map f xs) \<Longrightarrow> k \<in> f ` set xs \<Longrightarrow> length (filter (\<lambda>x. f x = k) xs) = 1"
proof (induction xs)
  case Nil
  then show ?case by simp
next
  case (Cons x xs)
  show ?case
  proof (cases "f x = k")
    case True
    then have "k \<notin> f ` set xs" using Cons.prems(1) by simp
    then have "filter (\<lambda>y. f y = k) xs = []" unfolding filter_empty_conv by blast
    then show ?thesis using True by simp
  next
    case False
    then show ?thesis using Cons by auto
  qed
qed

lemma merge_item_unstamped:
  assumes occ: "ratingKey x = k \<longrightarrow> addedAt x = None"
    and inv: "\<forall>e. map_of ti k = Some e \<longrightarrow> added_at e = None"
  shows "\<forall>e. map_of (merge_item u x ti) k = Some e \<longrightarrow> added_at e = None"
proof (cases "ratingKey x = k")
  case False
  then have "map_of (merge_item u x ti) k = map_of ti k" by (rule map_of_merge_item_other)
  then show ?thesis using inv by simp
next
  case True
  then have stamp: "addedAt x = None" using occ by simp
  show ?thesis
  proof (cases "map_of ti k")
    case None
    then have "map_of (merge_item u x ti) k =
        Some \<lparr>i_track = x, added_at = addedAt x, added_by = u, i_title = title x,
              i_artist = artist_of x\<rparr>"
      using map_of_merge_item_new [of ti x u] True by simp
    then show ?thesis using stamp by simp
  next
    case (Some e0)
    then have "map_of (merge_item u x ti) k = Some e0"
      using map_of_merge_item_old [of ti x e0 u] True stamp by simp
    moreover have "added_at e0 = None" using inv Some by blast
    ultimately show ?thesis by simp
  qed
qed

lemma merge_items_unstamped:
  "\<forall>x \<in> set xs. ratingKey x = k \<longrightarrow> addedAt x = None \<Longrightarrow>
   \<forall>e. map_of ti k = Some e \<longrightarrow> added_at e = None \<Longrightarrow>
   \<forall>e. map_of (merge_items u xs ti) k = Some e \<longrightarrow> added_at e = None"
proof (induction xs arbitrary: ti)
  case Nil
  then show ?case by simp
next
  case (Cons x xs)
  have occ: "ratingKey x = k \<longrightarrow> addedAt x = None" using Cons.prems(1) by simp
  have rest: "\<forall>y \<in> set xs. ratingKey y = k \<longrightarrow> addedAt y = None" using Cons.prems(1) by simp
  have "\<forall>e. map_of (merge_item u x ti) k = Some e \<longrightarrow> added_at e = None"
    using occ Cons.prems(2) by (rule merge_item_unstamped)
  with rest have "\<forall>e. map_of (merge_items u xs (merge_item u x ti)) k = Some e \<longrightarrow> added_at e = None"
    by (rule Cons.IH)
  then show ?case by simp
qed

lemma collect_membership_unstamped:
  "\<forall>u \<in> set members. \<forall>x \<in> set (read_playlist cat n u). ratingKey x = k \<longrightarrow> addedAt x = None \<Longrightarrow>
   \<forall>e. map_of ti k = Some e \<longrightarrow> added_at e = None \<Longrightarrow>
   \<forall>e. map_of (collect_membership cat n members ti) k = Some e \<longrightarrow> added_at e = None"
proof (induction members arbitrary: ti)
  case Nil
  then show ?case by simp
next
  case (Cons u rest)
  have occ: "\<forall>x \<in> set (read_playlist cat n u). ratingKey x = k \<longrightarrow> addedAt x = None"
    using Cons.prems(1) by simp
  have others: "\<forall>v \<in> set rest. \<forall>x \<in> set (read_playlist cat n v).
      ratingKey x = k \<longrightarrow> addedAt x = None"
    using Cons.prems(1) by simp
  have "\<forall>e. map_of (merge_items u (read_playlist cat n u) ti) k = Some e \<longrightarrow> added_at e = None"
    using occ Cons.prems(2) by (rule merge_items_unstamped)
  with others show ?case unfolding collect_membership_Cons by (rule Cons.IH)
qed

lemma sorted_tracks_unstamped_last:
  assumes i: "i < length ti" and j: "j < length ti"
    and n: "added_at (sorted_tracks ti ! i) = None"
    and s: "added_at (sorted_tracks ti ! j) = Some t" and t: "datetime_min < t"
  shows "j < i"
proof (rule ccontr)
  assume "\<not> j < i"
  moreover have "i \<noteq> j" using n s by auto
  ultimately have ij: "i < j" by simp
  have "sort_stamp (sorted_tracks ti ! j) \<le> sort_stamp (sorted_tracks ti ! i)"
    unfolding sorted_tracks_def using ij j by (intro sorted_reverse_nth) simp_all
  then show False using n s t by (simp add: sort_stamp_def)
qed

lemma dedup_capped_Cons_seen:
  "ratingKey x \<in> seen \<Longrightarrow> dedup_capped m (x # xs) unique seen = dedup_capped m xs unique seen"
  by simp

lemma dedup_capped_Cons_full:
  "ratingKey x \<notin> seen \<Longrightarrow> m \<le> Suc (length unique) \<Longrightarrow>
   dedup_capped m (x # xs) unique seen = unique @ [x]"
  by simp

lemma dedup_capped_Cons_more:
  "ratingKey x \<notin> seen \<Longrightarrow> \<not> m \<le> Suc (length unique) \<Longrightarrow>
   dedup_capped m (x # xs) unique seen =
     dedup_capped m xs (unique @ [x]) (insert (ratingKey x) seen)"
  by simp

lemma dedup_capped_keys:
  "ratingKey ` set (dedup_capped m xs unique seen) \<subseteq> ratingKey ` set unique \<union> ratingKey ` set xs"
proof (induction xs arbitrary: unique seen)
  case Nil
  then show ?case by simp
next
  case (Cons x xs)
  consider "ratingKey x \<in> seen" | "ratingKey x \<notin> seen" "m \<le> Suc (length unique)"
    | "ratingKey x \<notin> seen" "\<not> m \<le> Suc (length unique)" by blast
  then show ?case
  proof cases
    case 1
    show ?thesis unfolding dedup_capped_Cons_seen [OF 1] using Cons.IH [of unique seen] by auto
  next
    case 2
    show ?thesis unfolding dedup_capped_Cons_full [OF 2] by auto
  next
    case 3
    show ?thesis unfolding dedup_capped_Cons_more [OF 3]
      using Cons.IH [of "unique @ [x]" "insert (ratingKey x) seen"] by auto
  qed
qed

lemma dedup_capped_distinct:
  "distinct (map ratingKey unique) \<Longrightarrow> seen = ratingKey ` set unique \<Longrightarrow>
   distinct (map ratingKey (dedup_capped m xs unique seen))"
proof (induction xs arbitrary: unique seen)
  case Nil
  then show ?case by simp
next
  case (Cons x xs)
  consider "ratingKey x \<in> seen" | "ratingKey x \<notin> seen" "m \<le> Suc (length unique)"
    | "ratingKey x \<notin> seen" "\<not> m \<le> Suc (length unique)" by blast
  then show ?case
  proof cases
    case 1
    show ?thesis unfolding dedup_capped_Cons_seen [OF 1] using Cons.prems by (rule Cons.IH)
  next
    case 2
    show ?thesis unfolding dedup_capped_Cons_full [OF 2] using Cons.prems 2(1) by simp
  next
    case 3
    have "distinct (map ratingKey (unique @ [x]))" using Cons.prems 3(1) by simp
    moreover have "insert (ratingKey x) seen = ratingKey ` set (unique @ [x])"
      using Cons.prems(2) by simp
    ultimately show ?thesis unfolding dedup_capped_Cons_more [OF 3] by (rule Cons.IH)
  qed
qed

lemma dedup_capped_below_cap:
  "length (dedup_capped m xs unique seen) < m \<Longrightarrow> seen = ratingKey ` set unique \<Longrightarrow>
   ratingKey ` set (dedup_capped m xs unique seen) = ratingKey ` set unique \<union> ratingKey ` set xs"
proof (induction xs arbitrary: unique seen)
  case Nil
  then show ?case by simp
next
  case (Cons x xs)
  consider "ratingKey x \<in> seen" | "ratingKey x \<notin> seen" "m \<le> Suc (length unique)"
    | "ratingKey x \<notin> seen" "\<not> m \<le> Suc (length unique)" by blast
  then show ?case
  proof cases
    case 1
    have "ratingKey ` set (dedup_capped m xs unique seen) =
        ratingKey ` set unique \<union> ratingKey ` set xs"
      using Cons.prems unfolding dedup_capped_Cons_seen [OF 1] by (rule Cons.IH)
    then show ?thesis unfolding dedup_capped_Cons_seen [OF 1] using 1 Cons.prems(2) by auto
  next
    case 2
    have False using Cons.prems(1) 2(2) unfolding dedup_capped_Cons_full [OF 2] by simp
    then show ?thesis ..
  next
    case 3
    have s: "insert (ratingKey x) seen = ratingKey ` set (unique @ [x])"
      using Cons.prems(2) by simp
    have "ratingKey ` set (dedup_capped m xs (unique @ [x]) (insert (ratingKey x) seen)) =
        ratingKey ` set (unique @ [x]) \<union> ratingKey ` set xs"
      using Cons.prems(1) s unfolding dedup_capped_Cons_more [OF 3] by (rule Cons.IH)
    then show ?thesis unfolding dedup_capped_Cons_more [OF 3] by auto
  qed
qed

lemma keys_merged_tracks:
  "map ratingKey (merged_tracks cat n readers) =
   map (ratingKey \<circ> i_track) (sorted_reverse sort_stamp (map snd (collect_membership cat n readers [])))"
  by (simp add: merged_tracks_def tracks_to_sync_def sorted_tracks_def)

lemma keyed_Nil: "keyed []"
  by (simp add: keyed_def)

lemma keyed_track_keys: "keyed ti \<Longrightarrow> map (ratingKey \<circ> i_track) (map snd ti) = map fst ti"
  by (induction ti) (auto simp: keyed_def)

lemma set_sorted_reverse [simp]: "set (sorted_reverse k xs) = set xs"
  by (simp add: sorted_reverse_def)

lemma length_sorted_reverse [simp]: "length (sorted_reverse k xs) = length xs"
  by (simp add: sorted_reverse_def)

lemma distinct_merged_tracks: "distinct (map ratingKey (merged_tracks cat n readers))"
proof -
  let ?ti = "collect_membership cat n readers []"
  have k: "keyed ?ti" using keyed_Nil by (rule keyed_collect_membership)
  have "distinct (map fst ?ti)" by (rule distinct_collect_membership) simp
  then have "distinct (map (ratingKey \<circ> i_track) (map snd ?ti))"
    by (simp only: keyed_track_keys [OF k])
  then show ?thesis unfolding keys_merged_tracks by (simp only: distinct_map_sorted_reverse)
qed

lemma set_keys_merged_tracks:
  "ratingKey ` set (merged_tracks cat n readers) =
   (\<Union>u \<in> set readers. ratingKey ` set (read_playlist cat n u))"
proof -
  let ?ti = "collect_membership cat n readers []"
  have k: "keyed ?ti" using keyed_Nil by (rule keyed_collect_membership)
  have "ratingKey ` set (merged_tracks cat n readers) = set (map ratingKey (merged_tracks cat n readers))"
    by simp
  also have "\<dots> = set (map (ratingKey \<circ> i_track) (map snd ?ti))"
    unfolding keys_merged_tracks by (simp only: set_map set_sorted_reverse)
  also have "\<dots> = fst ` set ?ti" unfolding keyed_track_keys [OF k] by simp
  also have "\<dots> = (\<Union>u \<in> set readers. ratingKey ` set (read_playlist cat n u))"
    unfolding keys_collect_membership by simp
  finally show ?thesis .
qed

lemma distinct_merge_ratings: "distinct (map ratingKey (merge_ratings m xs))"
  unfolding merge_ratings_def by (rule dedup_capped_distinct) simp_all

lemma keys_merge_ratings: "ratingKey ` set (merge_ratings m xs) \<subseteq> ratingKey ` set xs"
  using dedup_capped_keys [of m "sorted_reverse (\<lambda>t. the (lastRatedAt t)) xs" "[]" "{}"]
  by (simp add: merge_ratings_def)

lemma keys_merge_ratings_below_cap:
  "length (merge_ratings m xs) < m \<Longrightarrow> ratingKey ` set (merge_ratings m xs) = ratingKey ` set xs"
  using dedup_capped_below_cap [of m "sorted_reverse (\<lambda>t. the (lastRatedAt t)) xs" "[]" "{}"]
  by (simp add: merge_ratings_def)

lemma store_scope_same: "cat_users cat u = Some sc \<Longrightarrow> store_scope u sc cat = cat"
  by (simp add: store_scope_def map_upd_triv)

lemma write_blocked_store:
  "write_blocked cat b \<Longrightarrow> cat_users cat v = Some sv \<Longrightarrow> sc_faults sv' = sc_faults sv \<Longrightarrow>
   write_blocked (store_scope v sv' cat) b"
proof (cases "b = v")
  case True
  assume "write_blocked cat b" "cat_users cat v = Some sv" "sc_faults sv' = sc_faults sv"
  then show ?thesis using True by (simp add: write_blocked_def)
next
  case False
  assume "write_blocked cat b"
  then show ?thesis using False by (simp add: write_blocked_def)
qed

lemma filter_gone_all [simp]:
  "filter (\<lambda>e. \<not> fst e < length xs) (enumerate 0 xs) = []"
  by (simp add: filter_empty_conv in_set_enumerate_eq)

lemma find_append:
  "find P (xs @ ys) = (case find P xs of None \<Rightarrow> find P ys | Some x \<Rightarrow> Some x)"
  by (induction xs) simp_all

lemma find_enumerate_fresh:
  "ratingKey x \<notin> ratingKey ` set pre \<Longrightarrow>
   find (\<lambda>e. ratingKey (snd e) = ratingKey x) (enumerate m pre) = None"
proof -
  assume a: "ratingKey x \<notin> ratingKey ` set pre"
  have "snd e \<in> set pre" if "e \<in> set (enumerate m pre)" for e
  proof -
    have "snd e \<in> snd ` set (enumerate m pre)" using that by (rule imageI)
    also have "snd ` set (enumerate m pre) = set (map snd (enumerate m pre))" by (simp only: set_map)
    also have "\<dots> = set pre" by (simp only: map_snd_enumerate)
    finally show ?thesis .
  qed
  then have "ratingKey (snd e) \<noteq> ratingKey x" if "e \<in> set (enumerate m pre)" for e
    using a that by (metis imageI)
  then show ?thesis unfolding find_None_iff by blast
qed

lemma lookup_item_first:
  assumes "ratingKey x \<notin> ratingKey ` set pre"
  shows "lookup_item (enumerate 0 (pre @ x # rest)) x = Some (length pre)"
  using find_enumerate_fresh [OF assms, of 0]
  by (simp add: lookup_item_def enumerate_append_eq find_append)

lemma delete_items_suffix:
  "distinct (map ratingKey (pre @ rest)) \<Longrightarrow>
   delete_items (enumerate 0 (pre @ rest)) rest {0..<length pre} = (None, {0..<length (pre @ rest)})"
proof (induction rest arbitrary: pre)
  case Nil
  then show ?case by simp
next
  case (Cons x rest)
  have fresh: "ratingKey x \<notin> ratingKey ` set pre" using Cons.prems by auto
  have d: "distinct (map ratingKey ((pre @ [x]) @ rest))" using Cons.prems by simp
  have ins: "insert (length pre) {0..<length pre} = {0..<length (pre @ [x])}" by auto
  from Cons.IH [OF d] show ?case
    by (simp add: lookup_item_first [OF fresh] ins del: length_append)
qed

lemma delete_items_all:
  "distinct (map ratingKey xs) \<Longrightarrow>
   delete_items (enumerate 0 xs) xs {} = (None, {0..<length xs})"
  using delete_items_suffix [of "[]" xs] by simp

lemma faults_removeItems [simp]: "sc_faults (snd (removeItems h cached its sc)) = sc_faults sc"
  by (simp add: removeItems_def split: prod.splits)

lemma faults_replace_scope [simp]: "sc_faults (snd (replace_scope n ts sc)) = sc_faults sc"
proof -
  have r: "sc_faults p = sc_faults sc" if "removeItems h cached its sc = (x, p)" for h cached its x p
    using faults_removeItems [of h cached its sc] that by simp
  show ?thesis
    by (auto simp: replace_scope_def Let_def playlists_def items_def addItems_def createPlaylist_def
        dest: r split: option.splits prod.splits)
qed

lemma replace_scope_sound:
  assumes ok: "sc_faults sc = {}" and t: "replaceable n sc"
  shows "\<exists>sc'. replace_scope n ts sc = (None, sc') \<and> sc_faults sc' = {} \<and> playlist_of n sc' = Some ts"
proof (cases "find_playlist n (sc_playlists sc)")
  case None
  then show ?thesis using ok
    by (simp add: replace_scope_def playlists_def createPlaylist_def playlist_of_def
        find_playlist_append_new)
next
  case (Some h)
  let ?xs = "pl_items (sc_playlists sc ! h)"
  have hl: "h < length (sc_playlists sc)" using Some by (simp add: find_playlist_Some)
  have xs: "?xs \<noteq> []" "distinct (map ratingKey ?xs)"
    using t Some by (simp_all add: replaceable_def playlist_of_def)
  have rm: "removeItems h (enumerate 0 ?xs) ?xs sc =
      (None, upd_items h (\<lambda>xs. map snd (filter (\<lambda>e. fst e \<notin> {0..<length ?xs}) (enumerate 0 xs))) sc)"
    using ok by (simp add: removeItems_def delete_items_all [OF xs(2)])
  show ?thesis using Some hl xs(1) ok
    by (simp add: replace_scope_def playlists_def items_def rm addItems_def upd_items_twice
        playlist_of_upd_items)
qed






lemma faults_raves_update_scope [simp]:
  "sc_faults (fst (snd (raves_update_scope n m U sc))) = sc_faults sc"
proof -
  have r: "sc_faults p = sc_faults q" if "removeItems h cached its q = (x, p)" for h cached its x p q
    using faults_removeItems [of h cached its q] that by simp
  show ?thesis
    by (auto simp: raves_update_scope_def Let_def playlists_def items_def addItems_def
        createPlaylist_def dest!: r split: option.splits prod.splits)
qed

text \<open>The body of the incremental policy where there is no playlist of the name.\<close>

lemma raves_update_scope_create:
  assumes "playlist_of n sc = None" "OpPlaylists \<notin> sc_faults sc" "OpCreatePlaylist \<notin> sc_faults sc"
  shows "\<exists>sc'. raves_update_scope n m U sc = (None, sc', length U)
           \<and> sc_faults sc' = sc_faults sc \<and> playlist_of n sc' = Some U"
  using assms
  by (simp add: raves_update_scope_def playlists_def createPlaylist_def playlist_of_def
      find_playlist_append_new)


lemma raves_update_scope_write_faults:
  assumes "OpAddItems \<in> sc_faults sc" "OpCreatePlaylist \<in> sc_faults sc"
  shows "fst (snd (raves_update_scope n m U sc)) = sc \<and> snd (snd (raves_update_scope n m U sc)) = 0"
  using assms
  by (simp add: raves_update_scope_def playlists_def items_def addItems_def createPlaylist_def
      Let_def split: option.splits)

text \<open>What the body of the incremental policy has done when it raises.\<close>

lemma raves_update_scope_raises:
  assumes "raves_update_scope n m U sc = (Some e, sc', j)"
  shows "(sc' = sc \<and> j = 0)
       \<or> (m < length (playlist_contents n sc)
           \<and> j = length (filter (\<lambda>t. ratingKey t \<notin> ratingKey ` set (playlist_contents n sc)) U)
           \<and> 0 < j)"
proof (cases "find_playlist n (sc_playlists sc)")
  case None
  then show ?thesis using assms
    by (auto simp: raves_update_scope_def playlists_def createPlaylist_def split: if_splits)
next
  case (Some h)
  let ?xs = "pl_items (sc_playlists sc ! h)"
  have c: "playlist_contents n sc = ?xs" using Some by (simp add: playlist_contents_def playlist_of_def)
  have keys: "(\<lambda>e. ratingKey (snd e)) ` set (enumerate 0 ?xs) = ratingKey ` set ?xs"
    by (rule keys_enumerate)
  show ?thesis using assms Some keys unfolding c
    by (auto simp: raves_update_scope_def playlists_def items_def addItems_def createPlaylist_def
        Let_def split: if_splits prod.splits)
qed

lemma replace_scope_blocked:
  assumes "OpAddItems \<in> sc_faults sc" "OpRemoveItems \<in> sc_faults sc" "OpCreatePlaylist \<in> sc_faults sc"
  shows "\<exists>e. replace_scope n ts sc = (Some e, sc)"
  using assms
  by (simp add: replace_scope_def playlists_def items_def addItems_def removeItems_def
      createPlaylist_def Let_def split: option.splits)

lemma raves_update_scope_blocked:
  assumes "OpAddItems \<in> sc_faults sc" "OpCreatePlaylist \<in> sc_faults sc"
  shows "\<exists>r. raves_update_scope n m U sc = (r, sc, 0)"
  using raves_update_scope_write_faults [OF assms, of n m U]
  by (cases "raves_update_scope n m U sc") auto

lemma raves_step_blocked:
  "write_blocked cat b \<Longrightarrow>
   raves_update_all n m U (b # rest) (cat, t) = raves_update_all n m U rest (cat, t)"
proof (cases "cat_users cat b")
  case None
  then show ?thesis by simp
next
  case (Some sc)
  assume "write_blocked cat b"
  then have f: "OpAddItems \<in> sc_faults sc" "OpCreatePlaylist \<in> sc_faults sc"
    using Some by (simp_all add: write_blocked_def)
  from raves_update_scope_blocked [OF f] obtain r where "raves_update_scope n m U sc = (r, sc, 0)"
    by blast
  then show ?thesis using Some by (simp add: store_scope_same)
qed

lemma staff_step_blocked:
  "write_blocked cat (au_title b) \<Longrightarrow>
   staff_push_all n ts (b # rest) (cat, k) = staff_push_all n ts rest (cat, k)"
proof (cases "cat_users cat (au_title b)")
  case None
  then show ?thesis by simp
next
  case (Some sc)
  assume "write_blocked cat (au_title b)"
  then have f: "OpAddItems \<in> sc_faults sc" "OpRemoveItems \<in> sc_faults sc"
    "OpCreatePlaylist \<in> sc_faults sc"
    using Some by (simp_all add: write_blocked_def)
  from replace_scope_blocked [OF f] obtain e where "replace_scope n ts sc = (Some e, sc)"
    by blast
  then show ?thesis using Some by (simp add: store_scope_same)
qed

lemma raves_blocked_removable:
  "write_blocked cat b \<Longrightarrow>
   raves_update_all n m U (pre @ b # post) (cat, t) = raves_update_all n m U (pre @ post) (cat, t)"
proof (induction pre arbitrary: cat t)
  case Nil
  then show ?case by (simp only: append_Nil raves_step_blocked)
next
  case (Cons v pre)
  show ?case
  proof (cases "cat_users cat v")
    case None
    then show ?thesis using Cons.IH [OF Cons.prems, of t] by simp
  next
    case (Some sv)
    obtain r sv' j where rs: "raves_update_scope n m U sv = (r, sv', j)"
      by (cases "raves_update_scope n m U sv") auto
    have "sc_faults sv' = sc_faults sv" using faults_raves_update_scope [of n m U sv] rs by simp
    with Cons.prems Some have "write_blocked (store_scope v sv' cat) b"
      by (rule write_blocked_store)
    from Cons.IH [OF this, of "t + j"] show ?thesis using Some rs by simp
  qed
qed

lemma staff_blocked_removable:
  "write_blocked cat (au_title b) \<Longrightarrow>
   staff_push_all n ts (pre @ b # post) (cat, k) = staff_push_all n ts (pre @ post) (cat, k)"
proof (induction pre arbitrary: cat k)
  case Nil
  then show ?case by (simp only: append_Nil staff_step_blocked)
next
  case (Cons v pre)
  show ?case
  proof (cases "cat_users cat (au_title v)")
    case None
    then show ?thesis using Cons.IH [OF Cons.prems, of k] by simp
  next
    case (Some sv)
    obtain r sv' where rs: "replace_scope n ts sv = (r, sv')" by (cases "replace_scope n ts sv")
    have "sc_faults sv' = sc_faults sv" using faults_replace_scope [of n ts sv] rs by simp
    with Cons.prems Some have b: "write_blocked (store_scope (au_title v) sv' cat) (au_title b)"
      by (rule write_blocked_store)
    show ?thesis
    proof (cases r)
      case None
      then show ?thesis using Cons.IH [OF b, of "k + 1"] Some rs by simp
    next
      case (Some e)
      then show ?thesis using Cons.IH [OF b, of k] \<open>cat_users cat (au_title v) = Some sv\<close> rs by simp
    qed
  qed
qed

lemma dedup_capped_nonempty:
  "unique \<noteq> [] \<Longrightarrow> dedup_capped m xs unique seen \<noteq> []"
  by (induction xs arbitrary: unique seen) simp_all

lemma merge_ratings_nonempty: "xs \<noteq> [] \<Longrightarrow> merge_ratings m xs \<noteq> []"
proof -
  assume "xs \<noteq> []"
  then have "sorted_reverse (\<lambda>t. the (lastRatedAt t)) xs \<noteq> []"
    by (metis length_sorted_reverse length_0_conv)
  then obtain y ys where "sorted_reverse (\<lambda>t. the (lastRatedAt t)) xs = y # ys"
    by (cases "sorted_reverse (\<lambda>t. the (lastRatedAt t)) xs") auto
  then show ?thesis by (simp add: merge_ratings_def dedup_capped_nonempty)
qed

lemma update_recent_raves_nonempty:
  assumes "raves_merged cat contributors m \<noteq> []"
  shows "update_recent_raves cat contributors m n =
     (\<lparr>added = snd (raves_update_all n m (raves_merged cat contributors m) contributors (cat, 0)),
       total = length (raves_merged cat contributors m),
       tracks = rated_rows (snd (collect_ratings cat contributors ([], Map.empty)))
                  (raves_merged cat contributors m)\<rparr>,
      fst (raves_update_all n m (raves_merged cat contributors m) contributors (cat, 0)))"
proof -
  obtain xs tu where c: "collect_ratings cat contributors ([], Map.empty) = (xs, tu)"
    by (cases "collect_ratings cat contributors ([], Map.empty)")
  have m: "raves_merged cat contributors m = merge_ratings m xs" by (simp add: raves_merged_def c)
  have "xs \<noteq> []" using assms unfolding m by (auto simp: merge_ratings_def sorted_reverse_def)
  then show ?thesis using assms unfolding m
    by (simp add: update_recent_raves_def c m Let_def split: prod.splits)
qed




lemma sync_jam_jar_nonempty:
  assumes "collect_membership cat n members [] \<noteq> []"
  shows "sync_jam_jar cat members n =
     (\<lparr>jj_total = length (merged_tracks cat n members),
       jj_tracks = track_list (sorted_tracks (collect_membership cat n members []))\<rparr>,
      jam_push_all n (merged_tracks cat n members) members cat)"
  using assms by (simp add: sync_jam_jar_def Let_def merged_tracks_def)

section \<open>The claims\<close>

text \<open>
  C9. An empty merge is not an error. When the collection of a sync yields no item, the
  operation returns its zero-valued result (\<^verbatim>\<open>update_recent_raves\<close>: total 0, added 0, no
  tracks; \<^verbatim>\<open>sync_jam_jar\<close>: total 0, no tracks; \<^verbatim>\<open>sync_staff_picks\<close>: total 0, no tracks,
  users_updated 0, returned and not raised), and the catalog after the call is the catalog
  before it: no playlist was written.
\<close>

theorem empty_merge_result:
  "(fst (collect_ratings cat contributors ([], Map.empty)) = [] \<longrightarrow>
      update_recent_raves cat contributors max_songs playlist_name =
        (\<lparr>added = 0, total = 0, tracks = []\<rparr>, cat))
   \<and> (collect_membership cat playlist_name members [] = [] \<longrightarrow>
      sync_jam_jar cat members playlist_name = (\<lparr>jj_total = 0, jj_tracks = []\<rparr>, cat))
   \<and> (collect_membership cat playlist_name curators [] = [] \<longrightarrow>
      sync_staff_picks cat curators playlist_name =
        (Inr \<lparr>sp_total = 0, sp_tracks = [], users_updated = 0\<rparr>, cat))"
  by (simp add: update_recent_raves_def sync_jam_jar_def sync_staff_picks_def probe_members_id
      split: prod.splits)

theorem empty_merge_result_witness:
  "update_recent_raves quiet_cat [''A''] 50 ''Mix'' = (\<lparr>added = 0, total = 0, tracks = []\<rparr>, quiet_cat)
   \<and> sync_jam_jar quiet_cat [''A''] ''Mix'' = (\<lparr>jj_total = 0, jj_tracks = []\<rparr>, quiet_cat)
   \<and> sync_staff_picks quiet_cat [''A''] ''Mix'' =
        (Inr \<lparr>sp_total = 0, sp_tracks = [], users_updated = 0\<rparr>, quiet_cat)"
  using empty_merge_result [of quiet_cat "[''A'']" 50 "''Mix''" "[''A'']" "[''A'']"]
  by (simp add: quiet_cat_def mk_scope_def switchUser_def sections_def search_def playlists_def)

text \<open>
  C4. The rating merge on its reference scenario: contributors A, B, C; A rated T1 on day 1
  and T2 on day 3, B rated T2 on day 2 and T3 on day 5, C rated nothing. The merged list is
  ordered T3 (day 5), T2 (day 3), T1 (day 1), and T2 carries A's later timestamp, as the
  specification has it. But the row of T2 names B, not A: \<^verbatim>\<open>track_users\<close> is keyed by \<^verbatim>\<open>ratingKey\<close>
  alone and each contributor overwrites the entry of the one before, so the attribution is
  the last contributor of the list that rated the track, whichever rating is the latest.
\<close>

theorem rating_merge_scenario_attribution:
  "map (\<lambda>r. (rr_title r, rr_user r, rr_rated_at r))
     (tracks (fst (update_recent_raves raves_cat [''A'', ''B'', ''C''] 50 ''Recent Raves''))) =
   [(''T3'', ''B'', Some 5), (''T2'', ''B'', Some 3), (''T1'', ''A'', Some 1)]"
  by (simp add: update_recent_raves_def raves_cat_def mk_scope_def mk_track_def switchUser_def
      sections_def search_def merge_ratings_def sorted_reverse_def rated_rows_def artist_of_def
      raves_update_scope_def playlists_def createPlaylist_def store_scope_def Let_def)

text \<open>
  C1. Idempotence of the incremental-capped policy, evaluated where it fails. The playlist of
  contributor A holds the 50 tracks Old, all rated five stars by A, and A has since rated
  New. A run appends New and trims nothing, because the list it measures in line 601 is the
  one kept from before the append; the playlist then holds 51 items, New last. A then rates
  Newer. The next run appends Newer (added = 1); the list kept has 51 items, so the trim of
  lines 602-604 runs and removes the item past position 50 of that list, which is New: a
  track of the merged list. The run after it, over unchanged source data, finds New missing
  and adds it again (added = 1, not 0) and removes Newer; and so on, run after run.
\<close>

theorem idempotence_broken_by_stale_trim:
  "playlists_at (snd (update_recent_raves full_cat [''A''] 50 ''Recent Raves'')) ''A'' =
     Some [(''Recent Raves'', fifty @ [new_track])]
   \<and> added (fst (update_recent_raves swap_cat [''A''] 50 ''Recent Raves'')) = 1
   \<and> playlists_at (snd (update_recent_raves swap_cat [''A''] 50 ''Recent Raves'')) ''A'' =
       Some [(''Recent Raves'', fifty @ [newer_track])]
   \<and> added (fst (update_recent_raves
        (snd (update_recent_raves swap_cat [''A''] 50 ''Recent Raves'')) [''A''] 50
        ''Recent Raves'')) = 1
   \<and> playlists_at (snd (update_recent_raves
        (snd (update_recent_raves swap_cat [''A''] 50 ''Recent Raves'')) [''A''] 50
        ''Recent Raves'')) ''A'' = Some [(''Recent Raves'', fifty @ [new_track])]"
  by code_simp




text \<open>
  C5. Full-replace convergence, evaluated where it fails. Member A holds T1 under the name;
  member B has a playlist of the name that is empty. The merged list is T1. For B,
  \<^verbatim>\<open>if playlist:\<close> (line 722) is the truth value of the playlist object, its length, 0:
  the body takes the \<^verbatim>\<open>else\<close> branch and creates. After the pass B has two playlists of
  the name, the one it had, still empty, and a second one with T1; the playlist that was
  there has not received the merged set. (Line 725, \<^verbatim>\<open>if current_items:\<close>, is written
  for a playlist that is there and empty, and is never reached with one.)
\<close>

theorem empty_playlist_not_repopulated:
  "merged_tracks hollow_cat ''Jam Jar'' [''A'', ''B''] = [T1]
   \<and> playlists_at (snd (sync_jam_jar hollow_cat [''A'', ''B''] ''Jam Jar'')) ''A'' =
       Some [(''Jam Jar'', [T1])]
   \<and> map_option (\<lambda>pls. (length pls, (''Jam Jar'', []) \<in> set pls, (''Jam Jar'', [T1]) \<in> set pls))
        (playlists_at (snd (sync_jam_jar hollow_cat [''A'', ''B''] ''Jam Jar'')) ''B'') =
       Some (2, True, True)"
  by code_simp




text \<open>
  C7, as stated, fails for the added counter: line 598 counts the new tracks as soon as
  \<^verbatim>\<open>addItems\<close> has returned, before the trim. The playlist of contributor A holds 51
  items and \<^verbatim>\<open>removeItems\<close> raises in A's scope; one merged track is new. The body appends
  it, the trim raises, the exception is caught: the write for A has failed, and the result
  still reports added = 1.
\<close>

theorem trim_failure_still_counted:
  "fst (raves_update_scope ''Recent Raves'' 50 (raves_merged stuck_cat [''A''] 50) stuck_scope) =
     Some PlaylistWriteFailure
   \<and> added (fst (update_recent_raves stuck_cat [''A''] 50 ''Recent Raves'')) = 1
   \<and> playlists_at (snd (update_recent_raves stuck_cat [''A''] 50 ''Recent Raves'')) ''A'' =
       Some [(''Recent Raves'', fifty @ [new_track, newer_track])]"
  by code_simp

text \<open>
  C7, amended. Partial failure isolation. No exception of a replica's body leaves the
  invocation: \<^verbatim>\<open>update_recent_raves\<close> and \<^verbatim>\<open>sync_jam_jar\<close> return their result, and
  \<^verbatim>\<open>sync_staff_picks\<close> returns its result whenever the account lookup itself succeeds.
  \<^item> A replica that cannot be reached, or each of whose writes raises, can be struck
    from the sequence, wherever it stands, without changing the outcome of the loop: every
    other replica is processed as if the failing one were not there.
  \<^item> Over distinct replicas and a non-empty merge, every replica of the sequence is after
    the invocation what its own body makes of its own scope, whatever happened to the
    others; \<^verbatim>\<open>added\<close> is the sum of what each body added, and \<^verbatim>\<open>users_updated\<close> counts the
    admin and the home users whose body ran to its end.
  \<^item> A body of \<^verbatim>\<open>update_recent_raves\<close> that raises has added nothing and changed nothing,
    unless it raised in the trim of a playlist longer than the cap: then the tracks it had
    appended are counted. A body that creates the playlist leaves the merged list there.
  \<^item> A body of the full replace that runs where no operation raises, on a playlist that is
    absent, or not empty and without a track listed twice, ends without exception and leaves
    the merged list.
\<close>

theorem partial_failure_isolation:
  "(write_blocked cat b \<longrightarrow>
      raves_update_all n m U (pre @ b # post) (cat, t) = raves_update_all n m U (pre @ post) (cat, t))
   \<and> (write_blocked cat (au_title ub) \<longrightarrow>
      staff_push_all n ts (upre @ ub # upost) (cat, k) = staff_push_all n ts (upre @ upost) (cat, k))
   \<and> (distinct contributors \<and> raves_merged cat contributors m \<noteq> [] \<longrightarrow>
         added (fst (update_recent_raves cat contributors m n)) =
           sum_list (map (raves_added cat n m (raves_merged cat contributors m)) contributors)
         \<and> (\<forall>c sc. c \<in> set contributors \<and> cat_users cat c = Some sc \<longrightarrow>
               cat_users (snd (update_recent_raves cat contributors m n)) c =
                 Some (fst (snd (raves_update_scope n m (raves_merged cat contributors m) sc)))))
   \<and> (\<forall>sc e sc' j. raves_update_scope n m U sc = (Some e, sc', j) \<longrightarrow>
         (sc' = sc \<and> j = 0)
         \<or> (m < length (playlist_contents n sc)
             \<and> j = length (filter (\<lambda>t. ratingKey t \<notin> ratingKey ` set (playlist_contents n sc)) U)
             \<and> 0 < j))
   \<and> (\<forall>sc. playlist_of n sc = None \<and> OpPlaylists \<notin> sc_faults sc \<and> OpCreatePlaylist \<notin> sc_faults sc \<longrightarrow>
         (\<exists>sc'. raves_update_scope n m U sc = (None, sc', length U) \<and> playlist_of n sc' = Some U))
   \<and> (distinct members \<and> collect_membership cat n members [] \<noteq> [] \<longrightarrow>
         (\<forall>c sc. c \<in> set members \<and> cat_users cat c = Some sc \<longrightarrow>
               cat_users (snd (sync_jam_jar cat members n)) c =
                 Some (snd (replace_scope n (merged_tracks cat n members) sc))))
   \<and> (cat_account cat = Some all_users \<and> distinct (map au_title (filter au_home all_users))
        \<and> collect_membership cat n curators [] \<noteq> [] \<longrightarrow>
         (\<exists>r. fst (sync_staff_picks cat curators n) = Inr r
            \<and> users_updated r =
                (if fst (replace_scope n (merged_tracks cat n curators) (cat_admin cat)) = None
                 then 1 else 0)
                + length (filter (staff_ok cat n (merged_tracks cat n curators))
                    (filter au_home all_users)))
         \<and> cat_admin (snd (sync_staff_picks cat curators n)) =
             snd (replace_scope n (merged_tracks cat n curators) (cat_admin cat))
         \<and> (\<forall>c sc. c \<in> set all_users \<and> au_home c \<and> cat_users cat (au_title c) = Some sc \<longrightarrow>
               cat_users (snd (sync_staff_picks cat curators n)) (au_title c) =
                 Some (snd (replace_scope n (merged_tracks cat n curators) sc))))
   \<and> (\<forall>sc. sc_faults sc = {} \<and> replaceable n sc \<longrightarrow>
         (\<exists>sc'. replace_scope n ts sc = (None, sc') \<and> playlist_of n sc' = Some ts))"
proof (intro conjI allI impI)
  assume "write_blocked cat b"
  then show "raves_update_all n m U (pre @ b # post) (cat, t) =
      raves_update_all n m U (pre @ post) (cat, t)"
    by (rule raves_blocked_removable)
next
  assume "write_blocked cat (au_title ub)"
  then show "staff_push_all n ts (upre @ ub # upost) (cat, k) =
      staff_push_all n ts (upre @ upost) (cat, k)"
    by (rule staff_blocked_removable)
next
  assume a: "distinct contributors \<and> raves_merged cat contributors m \<noteq> []"
  then have d: "distinct contributors" and U: "raves_merged cat contributors m \<noteq> []" by simp_all
  show "added (fst (update_recent_raves cat contributors m n)) =
      sum_list (map (raves_added cat n m (raves_merged cat contributors m)) contributors)"
    using raves_update_all_distinct [OF d, of n m "raves_merged cat contributors m" cat 0]
    by (simp add: update_recent_raves_nonempty [OF U])
next
  fix c sc
  assume a: "distinct contributors \<and> raves_merged cat contributors m \<noteq> []"
    and c: "c \<in> set contributors \<and> cat_users cat c = Some sc"
  from a have d: "distinct contributors" and U: "raves_merged cat contributors m \<noteq> []" by simp_all
  have "cat_users (fst (raves_update_all n m (raves_merged cat contributors m) contributors (cat, 0))) c =
      Some (fst (snd (raves_update_scope n m (raves_merged cat contributors m) sc)))"
    using raves_update_all_distinct [OF d, of n m "raves_merged cat contributors m" cat 0] c by blast
  then show "cat_users (snd (update_recent_raves cat contributors m n)) c =
      Some (fst (snd (raves_update_scope n m (raves_merged cat contributors m) sc)))"
    by (simp add: update_recent_raves_nonempty [OF U])
next
  fix sc :: scope and e sc' j
  assume "raves_update_scope n m U sc = (Some e, sc', j)"
  then show "(sc' = sc \<and> j = 0)
      \<or> (m < length (playlist_contents n sc)
          \<and> j = length (filter (\<lambda>t. ratingKey t \<notin> ratingKey ` set (playlist_contents n sc)) U)
          \<and> 0 < j)"
    by (rule raves_update_scope_raises)
next
  fix sc :: scope
  assume "playlist_of n sc = None \<and> OpPlaylists \<notin> sc_faults sc \<and> OpCreatePlaylist \<notin> sc_faults sc"
  then show "\<exists>sc'. raves_update_scope n m U sc = (None, sc', length U) \<and> playlist_of n sc' = Some U"
    using raves_update_scope_create [of n sc m U] by blast
next
  fix c sc
  assume a: "distinct members \<and> collect_membership cat n members [] \<noteq> []"
    and c: "c \<in> set members \<and> cat_users cat c = Some sc"
  have "cat_users (jam_push_all n (merged_tracks cat n members) members cat) c =
      Some (snd (replace_scope n (merged_tracks cat n members) sc))"
    by (rule jam_push_all_distinct) (use a c in simp_all)
  then show "cat_users (snd (sync_jam_jar cat members n)) c =
      Some (snd (replace_scope n (merged_tracks cat n members) sc))"
    using a by (simp add: sync_jam_jar_nonempty)
next
  let ?ts = "merged_tracks cat n curators"
  let ?home = "filter au_home all_users"
  assume a: "cat_account cat = Some all_users \<and> distinct (map au_title ?home)
      \<and> collect_membership cat n curators [] \<noteq> []"
  then have acc: "cat_account cat = Some all_users" and d: "distinct (map au_title ?home)"
    and ne: "collect_membership cat n curators [] \<noteq> []" by simp_all
  obtain r admin' where ra: "replace_scope n ?ts (cat_admin cat) = (r, admin')"
    by (cases "replace_scope n ?ts (cat_admin cat)")
  let ?cat1 = "cat\<lparr>cat_admin := admin'\<rparr>"
  let ?k = "if r = None then 1 else 0 :: nat"
  obtain cat' k where sp: "staff_push_all n ?ts ?home (?cat1, ?k) = (cat', k)"
    by (cases "staff_push_all n ?ts ?home (?cat1, ?k)")
  have run: "sync_staff_picks cat curators n =
      (Inr \<lparr>sp_total = length ?ts,
            sp_tracks = track_list (sorted_tracks (collect_membership cat n curators [])),
            users_updated = k\<rparr>, cat')"
    unfolding sync_staff_picks_nonempty [OF acc ne] ra prod.case sp ..
  have ok: "staff_ok ?cat1 n ?ts = staff_ok cat n ?ts" by (simp add: staff_ok_def fun_eq_iff)
  have "snd (staff_push_all n ?ts ?home (?cat1, ?k)) = ?k + length (filter (staff_ok ?cat1 n ?ts) ?home)"
    using d by (rule staff_push_all_count)
  then have "k = ?k + length (filter (staff_ok cat n ?ts) ?home)" unfolding sp ok by simp
  moreover have "fst (replace_scope n ?ts (cat_admin cat)) = r" using ra by simp
  ultimately show "\<exists>r. fst (sync_staff_picks cat curators n) = Inr r
      \<and> users_updated r =
          (if fst (replace_scope n ?ts (cat_admin cat)) = None then 1 else 0)
          + length (filter (staff_ok cat n ?ts) ?home)"
    unfolding run by simp
next
  let ?ts = "merged_tracks cat n curators"
  assume a: "cat_account cat = Some all_users \<and> distinct (map au_title (filter au_home all_users))
      \<and> collect_membership cat n curators [] \<noteq> []"
  then have acc: "cat_account cat = Some all_users"
    and ne: "collect_membership cat n curators [] \<noteq> []" by simp_all
  show "cat_admin (snd (sync_staff_picks cat curators n)) = snd (replace_scope n ?ts (cat_admin cat))"
  proof -
    obtain r admin' where ra: "replace_scope n ?ts (cat_admin cat) = (r, admin')"
      by (cases "replace_scope n ?ts (cat_admin cat)")
    let ?cat1 = "cat\<lparr>cat_admin := admin'\<rparr>"
    let ?k = "if r = None then 1 else 0 :: nat"
    obtain cat' k where sp: "staff_push_all n ?ts (filter au_home all_users) (?cat1, ?k) = (cat', k)"
      by (cases "staff_push_all n ?ts (filter au_home all_users) (?cat1, ?k)")
    have run: "sync_staff_picks cat curators n =
        (Inr \<lparr>sp_total = length ?ts,
              sp_tracks = track_list (sorted_tracks (collect_membership cat n curators [])),
              users_updated = k\<rparr>, cat')"
      unfolding sync_staff_picks_nonempty [OF acc ne] ra prod.case sp ..
    have "cat_admin (fst (staff_push_all n ?ts (filter au_home all_users) (?cat1, ?k))) = admin'"
      by simp
    then show ?thesis unfolding run sp using ra by simp
  qed
next
  let ?ts = "merged_tracks cat n curators"
  let ?home = "filter au_home all_users"
  fix c sc
  assume a: "cat_account cat = Some all_users \<and> distinct (map au_title ?home)
      \<and> collect_membership cat n curators [] \<noteq> []"
    and c: "c \<in> set all_users \<and> au_home c \<and> cat_users cat (au_title c) = Some sc"
  from a have acc: "cat_account cat = Some all_users" and d: "distinct (map au_title ?home)"
    and ne: "collect_membership cat n curators [] \<noteq> []" by simp_all
  obtain r admin' where ra: "replace_scope n ?ts (cat_admin cat) = (r, admin')"
    by (cases "replace_scope n ?ts (cat_admin cat)")
  let ?cat1 = "cat\<lparr>cat_admin := admin'\<rparr>"
  have ch: "c \<in> set ?home" and cs: "cat_users ?cat1 (au_title c) = Some sc" using c by simp_all
  let ?k = "if r = None then 1 else 0 :: nat"
  obtain cat' k where sp: "staff_push_all n ?ts ?home (?cat1, ?k) = (cat', k)"
    by (cases "staff_push_all n ?ts ?home (?cat1, ?k)")
  have run: "sync_staff_picks cat curators n =
      (Inr \<lparr>sp_total = length ?ts,
            sp_tracks = track_list (sorted_tracks (collect_membership cat n curators [])),
            users_updated = k\<rparr>, cat')"
    unfolding sync_staff_picks_nonempty [OF acc ne] ra prod.case sp ..
  have "cat_users (fst (staff_push_all n ?ts ?home (?cat1, ?k))) (au_title c) =
      Some (snd (replace_scope n ?ts sc))"
    using d ch cs by (rule staff_push_all_distinct)
  then show "cat_users (snd (sync_staff_picks cat curators n)) (au_title c) =
      Some (snd (replace_scope n ?ts sc))"
    unfolding run sp by simp
next
  fix sc :: scope
  assume "sc_faults sc = {} \<and> replaceable n sc"
  then show "\<exists>sc'. replace_scope n ts sc = (None, sc') \<and> playlist_of n sc' = Some ts"
    using replace_scope_sound [of sc n ts] by blast
qed


theorem partial_failure_isolation_witness:
  "raves_update_all ''Mix'' 50 [new_track] [''A'', ''B'', ''C''] (iso_cat, 0) =
     raves_update_all ''Mix'' 50 [new_track] [''A'', ''C''] (iso_cat, 0)
   \<and> staff_push_all ''Mix'' [T1] iso_users (iso_cat, 0) =
       staff_push_all ''Mix'' [T1] [\<lparr>au_title = ''A'', au_home = True\<rparr>,
         \<lparr>au_title = ''C'', au_home = True\<rparr>] (iso_cat, 0)
   \<and> added (fst (update_recent_raves iso_cat [''A'', ''B'', ''C''] 50 ''Mix'')) = 2
   \<and> cat_users (snd (update_recent_raves iso_cat [''A'', ''B'', ''C''] 50 ''Mix'')) ''B''
       = Some broken_scope
   \<and> map_option (playlist_of ''Mix'')
        (cat_users (snd (update_recent_raves iso_cat [''A'', ''B'', ''C''] 50 ''Mix'')) ''C'')
       = Some (Some [T9, new_track])
   \<and> 50 < length (playlist_contents ''Recent Raves'' stuck_scope)
   \<and> (\<exists>sc'. raves_update_scope ''Mix'' 50 [new_track] (mk_scope [new_track] []) = (None, sc', 1)
        \<and> playlist_of ''Mix'' sc' = Some [new_track])
   \<and> map_option (playlist_of ''Mix'')
        (cat_users (snd (sync_jam_jar iso_cat [''A'', ''B'', ''C''] ''Mix'')) ''A'') = Some (Some [T9])
   \<and> (\<exists>r. fst (sync_staff_picks iso_cat [''C''] ''Mix'') = Inr r \<and> users_updated r = 3)
   \<and> map_option (playlist_of ''Mix'') (cat_users (snd (sync_staff_picks iso_cat [''C''] ''Mix'')) ''A'')
       = Some (Some [T9])
   \<and> cat_users (snd (sync_staff_picks iso_cat [''C''] ''Mix'')) ''B'' = Some broken_scope
   \<and> map_option (playlist_of ''Mix'') (cat_users (snd (sync_staff_picks iso_cat [''C''] ''Mix'')) ''C'')
       = Some (Some [T9])
   \<and> (\<exists>sc'. replace_scope ''Mix'' [T1] (mk_scope [] [\<lparr>pl_title = ''Mix'', pl_items = [T9]\<rparr>]) = (None, sc')
        \<and> playlist_of ''Mix'' sc' = Some [T1])"
proof -
  let ?A = "\<lparr>au_title = ''A'', au_home = True\<rparr>"
  let ?B = "\<lparr>au_title = ''B'', au_home = True\<rparr>"
  let ?C = "\<lparr>au_title = ''C'', au_home = True\<rparr>"
  let ?scA = "mk_scope [new_track] []"
  let ?scC = "mk_scope [] [\<lparr>pl_title = ''Mix'', pl_items = [T9]\<rparr>]"
  let ?abc = "[''A'', ''B'', ''C'']"
  note th = partial_failure_isolation [where cat = iso_cat and b = "''B''" and n = "''Mix''"
      and m = 50 and U = "[new_track]" and pre = "[''A'']" and post = "[''C'']" and t = 0
      and ub = ?B and ts = "[T1]" and upre = "[?A]" and upost = "[?C]" and k = 0
      and contributors = ?abc and members = ?abc and curators = "[''C'']" and all_users = iso_users]
  note th2 = partial_failure_isolation [where n = "''Recent Raves''" and m = 50 and U = "[newer_track]"]
  note c1 = th [THEN conjunct1]
  note c2 = th [THEN conjunct2, THEN conjunct1]
  note c3 = th [THEN conjunct2, THEN conjunct2, THEN conjunct1]
  note c4 = th2 [THEN conjunct2, THEN conjunct2, THEN conjunct2, THEN conjunct1]
  note c5 = th [THEN conjunct2, THEN conjunct2, THEN conjunct2, THEN conjunct2, THEN conjunct1]
  note c6 = th [THEN conjunct2, THEN conjunct2, THEN conjunct2, THEN conjunct2, THEN conjunct2,
      THEN conjunct1]
  note c7 = th [THEN conjunct2, THEN conjunct2, THEN conjunct2, THEN conjunct2, THEN conjunct2,
      THEN conjunct2, THEN conjunct1]
  note c8 = th [THEN conjunct2, THEN conjunct2, THEN conjunct2, THEN conjunct2, THEN conjunct2,
      THEN conjunct2, THEN conjunct2]
  have ua: "cat_users iso_cat ''A'' = Some ?scA" and ub: "cat_users iso_cat ''B'' = Some broken_scope"
    and uc: "cat_users iso_cat ''C'' = Some ?scC" by (simp_all add: iso_cat_def)
  have wb: "write_blocked iso_cat ''B''" "write_blocked iso_cat (au_title ?B)"
    by (simp_all add: write_blocked_def iso_cat_def broken_scope_def)
  have q1: "raves_update_all ''Mix'' 50 [new_track] ?abc (iso_cat, 0) =
      raves_update_all ''Mix'' 50 [new_track] [''A'', ''C''] (iso_cat, 0)"
    using c1 wb(1) by simp
  have q2: "staff_push_all ''Mix'' [T1] iso_users (iso_cat, 0) =
      staff_push_all ''Mix'' [T1] [?A, ?C] (iso_cat, 0)"
    using c2 wb(2) by (simp add: iso_users_def)
  have U: "raves_merged iso_cat ?abc 50 = [new_track]" by code_simp
  have h3: "distinct ?abc \<and> raves_merged iso_cat ?abc 50 \<noteq> []" using U by simp
  note rv = c3 [THEN mp, OF h3, unfolded U]
  have s: "sum_list (map (raves_added iso_cat ''Mix'' 50 [new_track]) ?abc) = 2" by code_simp
  have p1: "added (fst (update_recent_raves iso_cat ?abc 50 ''Mix'')) = 2"
    using rv [THEN conjunct1] s by simp
  have bv: "fst (snd (raves_update_scope ''Mix'' 50 [new_track] broken_scope)) = broken_scope"
    by (rule raves_update_scope_write_faults [THEN conjunct1]) (simp_all add: broken_scope_def)
  have p2: "cat_users (snd (update_recent_raves iso_cat ?abc 50 ''Mix'')) ''B'' = Some broken_scope"
    using rv [THEN conjunct2, THEN spec, THEN spec, THEN mp, of "''B''" broken_scope] ub bv by simp
  have cv: "playlist_of ''Mix'' (fst (snd (raves_update_scope ''Mix'' 50 [new_track] ?scC)))
      = Some [T9, new_track]" by code_simp
  have p3: "map_option (playlist_of ''Mix'')
        (cat_users (snd (update_recent_raves iso_cat ?abc 50 ''Mix'')) ''C'') = Some (Some [T9, new_track])"
    using rv [THEN conjunct2, THEN spec, THEN spec, THEN mp, of "''C''" ?scC] uc cv by simp
  have ev: "fst (raves_update_scope ''Recent Raves'' 50 [newer_track] stuck_scope) =
        Some PlaylistWriteFailure
      \<and> snd (snd (raves_update_scope ''Recent Raves'' 50 [newer_track] stuck_scope)) = 1"
    by code_simp
  then obtain sc' where ev': "raves_update_scope ''Recent Raves'' 50 [newer_track] stuck_scope =
      (Some PlaylistWriteFailure, sc', 1)"
    by (cases "raves_update_scope ''Recent Raves'' 50 [newer_track] stuck_scope") auto
  have p4: "50 < length (playlist_contents ''Recent Raves'' stuck_scope)"
    using c4 [THEN spec, THEN spec, THEN spec, THEN spec, THEN mp, OF ev'] by simp
  have h5: "playlist_of ''Mix'' ?scA = None \<and> OpPlaylists \<notin> sc_faults ?scA
      \<and> OpCreatePlaylist \<notin> sc_faults ?scA"
    by (simp add: mk_scope_def playlist_of_def)
  have p5: "\<exists>sc'. raves_update_scope ''Mix'' 50 [new_track] ?scA = (None, sc', 1)
      \<and> playlist_of ''Mix'' sc' = Some [new_track]"
    using c5 [THEN spec, THEN mp, OF h5] by simp
  have mj: "merged_tracks iso_cat ''Mix'' ?abc = [T9]" by code_simp
  have nj: "collect_membership iso_cat ''Mix'' ?abc [] \<noteq> []" by code_simp
  have h6: "distinct ?abc \<and> collect_membership iso_cat ''Mix'' ?abc [] \<noteq> []" using nj by simp
  have ja: "playlist_of ''Mix'' (snd (replace_scope ''Mix'' [T9] ?scA)) = Some [T9]" by code_simp
  have p6: "map_option (playlist_of ''Mix'')
        (cat_users (snd (sync_jam_jar iso_cat ?abc ''Mix'')) ''A'') = Some (Some [T9])"
    using c6 [THEN mp, OF h6, unfolded mj, THEN spec, THEN spec, THEN mp, of "''A''" ?scA] ua ja
    by simp
  have ms: "merged_tracks iso_cat ''Mix'' [''C''] = [T9]" by code_simp
  have ns: "collect_membership iso_cat ''Mix'' [''C''] [] \<noteq> []" by code_simp
  have h7: "cat_account iso_cat = Some iso_users \<and> distinct (map au_title (filter au_home iso_users))
      \<and> collect_membership iso_cat ''Mix'' [''C''] [] \<noteq> []"
    using ns by (simp add: iso_cat_def iso_users_def)
  note sp = c7 [THEN mp, OF h7, unfolded ms]
  have cnt: "(if fst (replace_scope ''Mix'' [T9] (cat_admin iso_cat)) = None then 1 else 0)
      + length (filter (staff_ok iso_cat ''Mix'' [T9]) (filter au_home iso_users)) = (3::nat)"
    by code_simp
  have p7: "\<exists>r. fst (sync_staff_picks iso_cat [''C''] ''Mix'') = Inr r \<and> users_updated r = 3"
    using sp [THEN conjunct1] unfolding cnt .
  have ha: "?A \<in> set iso_users \<and> au_home ?A \<and> cat_users iso_cat (au_title ?A) = Some ?scA"
    and hb: "?B \<in> set iso_users \<and> au_home ?B \<and> cat_users iso_cat (au_title ?B) = Some broken_scope"
    and hc: "?C \<in> set iso_users \<and> au_home ?C \<and> cat_users iso_cat (au_title ?C) = Some ?scC"
    using ua ub uc by (simp_all add: iso_users_def)
  have sb: "snd (replace_scope ''Mix'' [T9] broken_scope) = broken_scope"
    using replace_scope_blocked [of broken_scope "''Mix''" "[T9]"] by (auto simp: broken_scope_def)
  have sc: "playlist_of ''Mix'' (snd (replace_scope ''Mix'' [T9] ?scC)) = Some [T9]" by code_simp
  have p8: "map_option (playlist_of ''Mix'') (cat_users (snd (sync_staff_picks iso_cat [''C''] ''Mix'')) ''A'')
       = Some (Some [T9])"
    using sp [THEN conjunct2, THEN conjunct2, THEN spec, THEN spec, THEN mp, OF ha] ja by simp
  have p9: "cat_users (snd (sync_staff_picks iso_cat [''C''] ''Mix'')) ''B'' = Some broken_scope"
    using sp [THEN conjunct2, THEN conjunct2, THEN spec, THEN spec, THEN mp, OF hb] sb by simp
  have p10: "map_option (playlist_of ''Mix'') (cat_users (snd (sync_staff_picks iso_cat [''C''] ''Mix'')) ''C'')
       = Some (Some [T9])"
    using sp [THEN conjunct2, THEN conjunct2, THEN spec, THEN spec, THEN mp, OF hc] sc by simp
  have h11: "sc_faults ?scC = {} \<and> replaceable ''Mix'' ?scC"
    by (simp add: mk_scope_def replaceable_def playlist_of_def)
  have p11: "\<exists>sc'. replace_scope ''Mix'' [T1] ?scC = (None, sc') \<and> playlist_of ''Mix'' sc' = Some [T1]"
    using c8 [THEN spec, THEN mp, OF h11] .
  show ?thesis using q1 q2 p1 p2 p3 p4 p5 p6 p7 p8 p9 p10 p11 by blast
qed

text \<open>
  C3. Earliest-wins rule of the membership merge (\<^verbatim>\<open>sync_jam_jar\<close>, \<^verbatim>\<open>sync_staff_picks\<close>).
  If replica A holds item X with timestamp t1, and every other occurrence of X's key that the
  collection reads carries no timestamp or a later one (such as t2 > t1 at replica B), then
  the merge has exactly one record for the key, stamped t1 and attributed to A. The list of
  replicas is arbitrary, so the result does not depend on the order in which A and B are
  folded in.
\<close>

theorem earliest_wins_membership_merge:
  assumes a: "a \<in> set members"
    and x: "x \<in> set (read_playlist cat n a)" "ratingKey x = k" "addedAt x = Some t1"
    and later: "\<forall>u \<in> set members. \<forall>y \<in> set (read_playlist cat n u).
        ratingKey y = k \<longrightarrow> not_before t1 a u (addedAt y)"
  shows "(\<exists>e. map_of (collect_membership cat n members []) k = Some e
            \<and> added_at e = Some t1 \<and> added_by e = a)
       \<and> length (filter (\<lambda>p. fst p = k) (collect_membership cat n members [])) = 1"
proof
  have "won t1 a k (collect_membership cat n members [])"
    using collect_membership_earliest [OF later, of "[]"] a x by auto
  then show "\<exists>e. map_of (collect_membership cat n members []) k = Some e
      \<and> added_at e = Some t1 \<and> added_by e = a"
    by (auto simp: won_def split: option.splits)
  have "k \<in> fst ` set (collect_membership cat n members [])"
    unfolding keys_collect_membership using a x by auto
  moreover have "distinct (map fst (collect_membership cat n members []))"
    by (rule distinct_collect_membership) simp
  ultimately show "length (filter (\<lambda>p. fst p = k) (collect_membership cat n members [])) = 1"
    by (simp add: count_distinct_keys)
qed

theorem earliest_wins_membership_merge_witness:
  "(\<exists>e. map_of (collect_membership earliest_cat ''Jam Jar'' [''A'', ''B''] []) 7 = Some e
       \<and> added_at e = Some 1 \<and> added_by e = ''A'')
   \<and> (\<exists>e. map_of (collect_membership earliest_cat ''Jam Jar'' [''B'', ''A''] []) 7 = Some e
       \<and> added_at e = Some 1 \<and> added_by e = ''A'')"
proof -
  have rA: "read_playlist earliest_cat ''Jam Jar'' ''A'' = [XA]" by code_simp
  have rB: "read_playlist earliest_cat ''Jam Jar'' ''B'' = [XB]" by code_simp
  have x: "XA \<in> set (read_playlist earliest_cat ''Jam Jar'' ''A'')" "ratingKey XA = 7"
    "addedAt XA = Some 1" by (simp_all add: rA XA_def mk_track_def)
  have l1: "\<forall>u \<in> set [''A'', ''B'']. \<forall>y \<in> set (read_playlist earliest_cat ''Jam Jar'' u).
      ratingKey y = 7 \<longrightarrow> not_before 1 ''A'' u (addedAt y)"
    by (simp add: rA rB XA_def XB_def mk_track_def not_before_def)
  have l2: "\<forall>u \<in> set [''B'', ''A'']. \<forall>y \<in> set (read_playlist earliest_cat ''Jam Jar'' u).
      ratingKey y = 7 \<longrightarrow> not_before 1 ''A'' u (addedAt y)"
    by (simp add: rA rB XA_def XB_def mk_track_def not_before_def)
  have a1: "''A'' \<in> set [''A'', ''B'']" and a2: "''A'' \<in> set [''B'', ''A'']" by simp_all
  from earliest_wins_membership_merge [OF a1 x l1] earliest_wins_membership_merge [OF a2 x l2]
  show ?thesis by blast
qed

text \<open>
  C8, as stated, fails for the capped rating merge: the loop of lines 552-557 leaves at the
  cap. Replicas A and B both rated the track with key 0, and 50 other tracks were rated
  later; the key occurs twice in the collected input and not at all in the merged output.
\<close>

theorem capped_merge_drops_shared_key:
  "length (filter (\<lambda>t. ratingKey t = 0)
     (fst (collect_ratings cap_cat [''A'', ''B''] ([], Map.empty)))) = 2
   \<and> length (filter (\<lambda>t. ratingKey t = 0)
        (merge_ratings 50 (fst (collect_ratings cap_cat [''A'', ''B''] ([], Map.empty))))) = 0
   \<and> total (fst (update_recent_raves cap_cat [''A'', ''B''] 50 ''Recent Raves'')) = 50"
  by code_simp

text \<open>
  C8, amended. Deduplication by canonical key. In the membership merge every key that a
  replica contributed has exactly one entry in the merged output. In the capped rating merge
  no key has two entries, every entry's key was collected, and every collected key has
  exactly one entry unless the cap ended the loop (the output has \<^verbatim>\<open>max_songs\<close> entries).
  The statements count entries by \<^verbatim>\<open>ratingKey\<close> for arbitrary items: items with one key
  are merged whatever their titles, and items with different keys stay apart under one title.
\<close>

theorem dedup_by_canonical_key:
  "(\<forall>k. k \<in> (\<Union>u \<in> set readers. ratingKey ` set (read_playlist cat n u)) \<longrightarrow>
        length (filter (\<lambda>t. ratingKey t = k) (merged_tracks cat n readers)) = 1)
   \<and> distinct (map ratingKey (merge_ratings m xs))
   \<and> ratingKey ` set (merge_ratings m xs) \<subseteq> ratingKey ` set xs
   \<and> (\<forall>k. k \<in> ratingKey ` set xs \<and> length (merge_ratings m xs) < m \<longrightarrow>
        length (filter (\<lambda>t. ratingKey t = k) (merge_ratings m xs)) = 1)"
proof (intro conjI allI impI)
  fix k
  assume "k \<in> (\<Union>u \<in> set readers. ratingKey ` set (read_playlist cat n u))"
  then have "k \<in> ratingKey ` set (merged_tracks cat n readers)"
    by (simp only: set_keys_merged_tracks)
  with distinct_merged_tracks
  show "length (filter (\<lambda>t. ratingKey t = k) (merged_tracks cat n readers)) = 1"
    by (rule count_distinct_keys)
next
  show "distinct (map ratingKey (merge_ratings m xs))" by (rule distinct_merge_ratings)
next
  show "ratingKey ` set (merge_ratings m xs) \<subseteq> ratingKey ` set xs" by (rule keys_merge_ratings)
next
  fix k
  assume a: "k \<in> ratingKey ` set xs \<and> length (merge_ratings m xs) < m"
  then have "k \<in> ratingKey ` set (merge_ratings m xs)"
    by (simp add: keys_merge_ratings_below_cap)
  with distinct_merge_ratings
  show "length (filter (\<lambda>t. ratingKey t = k) (merge_ratings m xs)) = 1"
    by (rule count_distinct_keys)
qed

theorem dedup_by_canonical_key_witness:
  "length (filter (\<lambda>t. ratingKey t = 11) (merged_tracks titles_cat ''Jam Jar'' [''A'', ''B''])) = 1
   \<and> length (filter (\<lambda>t. ratingKey t = 12) (merged_tracks titles_cat ''Jam Jar'' [''A'', ''B''])) = 1
   \<and> length (filter (\<lambda>t. ratingKey t = 2)
        (merge_ratings 50 (fst (collect_ratings raves_cat [''A'', ''B'', ''C''] ([], Map.empty))))) = 1"
proof -
  let ?xs = "fst (collect_ratings raves_cat [''A'', ''B'', ''C''] ([], Map.empty))"
  note th = dedup_by_canonical_key [where readers = "[''A'', ''B'']" and cat = titles_cat
      and n = "''Jam Jar''" and m = 50 and xs = ?xs]
  have k11: "11 \<in> (\<Union>u \<in> set [''A'', ''B'']. ratingKey ` set (read_playlist titles_cat ''Jam Jar'' u))"
    by code_simp
  have k12: "12 \<in> (\<Union>u \<in> set [''A'', ''B'']. ratingKey ` set (read_playlist titles_cat ''Jam Jar'' u))"
    by code_simp
  have k2: "2 \<in> ratingKey ` set ?xs \<and> length (merge_ratings 50 ?xs) < 50" by code_simp
  show ?thesis
    using th [THEN conjunct1, THEN spec, THEN mp, OF k11]
      th [THEN conjunct1, THEN spec, THEN mp, OF k12]
      th [THEN conjunct2, THEN conjunct2, THEN conjunct2, THEN spec, THEN mp, OF k2]
    by simp
qed

text \<open>
  C10, as stated, fails in two places. When an item is stamped exactly \<^verbatim>\<open>datetime.min\<close>,
  its sort key equals the one of an item without timestamp, the sort is stable, and the
  untimestamped item U, read first, stays before the timestamped item Z. And an item without
  timestamp whose key another replica holds with a timestamp is in the merge with that
  timestamp, not with an absent one: A's untimestamped U is merged as added by B at 5.
\<close>

theorem untimestamped_before_minimum_stamp:
  "map ar_added_at (jj_tracks (fst (sync_jam_jar min_cat [''A''] ''Jam Jar'')))
     = [None, Some datetime_min]
   \<and> map title (merged_tracks min_cat ''Jam Jar'' [''A'']) = [''U'', ''Z'']
   \<and> map (\<lambda>e. (addedAt (i_track e), added_at e, added_by e))
        (sorted_tracks (collect_membership elsewhere_cat ''Jam Jar'' [''A'', ''B''] []))
       = [(None, Some 5, ''B'')]"
  by code_simp

text \<open>
  C10, amended. In the membership collection every item read is in the merge, with or
  without timestamp; a key none of whose occurrences carries a timestamp has a record
  without timestamp; and in the sorted output every record without timestamp comes after
  every record whose timestamp is later than \<^verbatim>\<open>datetime.min\<close>.
\<close>

theorem untimestamped_items_sort_last:
  "(\<forall>u \<in> set members. \<forall>y \<in> set (read_playlist cat n u).
       ratingKey y \<in> fst ` set (collect_membership cat n members []))
   \<and> ((\<forall>u \<in> set members. \<forall>y \<in> set (read_playlist cat n u). ratingKey y = k \<longrightarrow> addedAt y = None)
        \<longrightarrow> (\<forall>e. map_of (collect_membership cat n members []) k = Some e \<longrightarrow> added_at e = None))
   \<and> (\<forall>i j t. i < length ti \<and> j < length ti \<and> added_at (sorted_tracks ti ! i) = None
         \<and> added_at (sorted_tracks ti ! j) = Some t \<and> datetime_min < t \<longrightarrow> j < i)"
proof (intro conjI)
  show "\<forall>u \<in> set members. \<forall>y \<in> set (read_playlist cat n u).
      ratingKey y \<in> fst ` set (collect_membership cat n members [])"
    unfolding keys_collect_membership by auto
  show "(\<forall>u \<in> set members. \<forall>y \<in> set (read_playlist cat n u). ratingKey y = k \<longrightarrow> addedAt y = None)
      \<longrightarrow> (\<forall>e. map_of (collect_membership cat n members []) k = Some e \<longrightarrow> added_at e = None)"
  proof
    assume "\<forall>u \<in> set members. \<forall>y \<in> set (read_playlist cat n u). ratingKey y = k \<longrightarrow> addedAt y = None"
    then show "\<forall>e. map_of (collect_membership cat n members []) k = Some e \<longrightarrow> added_at e = None"
      by (rule collect_membership_unstamped) simp
  qed
  show "\<forall>i j t. i < length ti \<and> j < length ti \<and> added_at (sorted_tracks ti ! i) = None
      \<and> added_at (sorted_tracks ti ! j) = Some t \<and> datetime_min < t \<longrightarrow> j < i"
    using sorted_tracks_unstamped_last [of _ ti] by blast
qed

theorem untimestamped_items_sort_last_witness:
  "4 \<in> fst ` set (collect_membership unstamped_cat ''Jam Jar'' [''A''] [])
   \<and> map_option added_at (map_of (collect_membership unstamped_cat ''Jam Jar'' [''A''] []) 4) = Some None
   \<and> map added_at (sorted_tracks (collect_membership unstamped_cat ''Jam Jar'' [''A''] []))
       = [Some 5, None]
   \<and> datetime_min < 5 \<and> (0::nat) < 1"
proof -
  let ?ti = "collect_membership unstamped_cat ''Jam Jar'' [''A''] []"
  note th = untimestamped_items_sort_last [where members = "[''A'']" and cat = unstamped_cat
      and n = "''Jam Jar''" and k = 4 and ti = ?ti]
  have r: "read_playlist unstamped_cat ''Jam Jar'' ''A'' = [U4, V5]" by code_simp
  have p1: "4 \<in> fst ` set ?ti" using th [THEN conjunct1] by (simp add: r U4_def mk_track_def)
  have h2: "\<forall>u \<in> set [''A'']. \<forall>y \<in> set (read_playlist unstamped_cat ''Jam Jar'' u).
      ratingKey y = 4 \<longrightarrow> addedAt y = None"
    by (simp add: r U4_def V5_def mk_track_def)
  have "\<forall>e. map_of ?ti 4 = Some e \<longrightarrow> added_at e = None"
    using th [THEN conjunct2, THEN conjunct1] h2 by blast
  moreover have "map_of ?ti 4 \<noteq> None" using p1 by (simp add: map_of_None_iff)
  ultimately have p2: "map_option added_at (map_of ?ti 4) = Some None" by auto
  have s: "map added_at (sorted_tracks ?ti) = [Some 5, None]" by code_simp
  have l: "length ?ti = 2" by code_simp
  have "(1::nat) < length ?ti \<and> 0 < length ?ti \<and> added_at (sorted_tracks ?ti ! 1) = None
      \<and> added_at (sorted_tracks ?ti ! 0) = Some 5 \<and> datetime_min < 5"
    by code_simp
  then have "(0::nat) < 1"
    using th [THEN conjunct2, THEN conjunct2, THEN spec, THEN spec, THEN spec, THEN mp] by blast
  moreover have "datetime_min < 5" by (simp add: datetime_min_def)
  ultimately show ?thesis using p1 p2 s by blast
qed

end
